theory Spec2Isabelle
  imports Complex_Main
begin

section \<open>Python values\<close>

text \<open>
  The scraper of \<^verbatim>\<open>fetch.py\<close> works on parsed JSON: \<^verbatim>\<open>None\<close>, booleans, integers,
  strings, lists and dictionaries. A Python string is a list of Unicode code points, each a
  natural number; \<open>ustr\<close> turns a literal of this theory into one. A dictionary is an
  association list in insertion order; its keys are distinct, and a lookup is \<open>map_of\<close>. The
  keys are field names of the upstream API and are kept as literals. Numbers are integers
  (the fields the scraper reads are counters).
\<close>

type_synonym pystr = "nat list"

definition ustr :: "string \<Rightarrow> pystr" where
  "ustr s = map of_char s"

datatype json =
    JNull
  | JBool bool
  | JInt int
  | JStr pystr
  | JList "json list"
  | JObj "(string \<times> json) list"

datatype error =
    KeyError string
  | TypeError
  | AttributeError
  | ValueError
  | HTTPError int
  | RequestException

text \<open>Truth value of an object, as tested by \<^verbatim>\<open>if x\<close> and \<^verbatim>\<open>if not x\<close>.\<close>

fun truthy :: "json \<Rightarrow> bool" where
  "truthy JNull = False"
| "truthy (JBool b) = b"
| "truthy (JInt i) = (i \<noteq> 0)"
| "truthy (JStr s) = (s \<noteq> [])"
| "truthy (JList xs) = (xs \<noteq> [])"
| "truthy (JObj kvs) = (kvs \<noteq> [])"

text \<open>\<^verbatim>\<open>d[k]\<close> with a string key: only a dictionary can be subscripted so.\<close>

fun getitem :: "json \<Rightarrow> string \<Rightarrow> error + json" where
  "getitem (JObj kvs) k = (case map_of kvs k of None \<Rightarrow> Inl (KeyError k) | Some v \<Rightarrow> Inr v)"
| "getitem _ k = Inl TypeError"

text \<open>\<^verbatim>\<open>d.get(k)\<close>: \<^verbatim>\<open>None\<close> for a missing key; only dictionaries have the method.\<close>

fun dict_get :: "json \<Rightarrow> string \<Rightarrow> error + json" where
  "dict_get (JObj kvs) k = (case map_of kvs k of None \<Rightarrow> Inr JNull | Some v \<Rightarrow> Inr v)"
| "dict_get _ k = Inl AttributeError"

definition bindE :: "error + 'a \<Rightarrow> ('a \<Rightarrow> error + 'b) \<Rightarrow> error + 'b" where
  "bindE m f = (case m of Inl e \<Rightarrow> Inl e | Inr x \<Rightarrow> f x)"

subsection \<open>Strings\<close>

text \<open>
  The whitespace of \<^verbatim>\<open>str.strip\<close> and \<^verbatim>\<open>str.isspace\<close>: the ASCII controls 9 to 13 and 28
  to 31, the blank, and the Unicode spaces: U+0085, U+00A0, U+1680, U+2000 to U+200A,
  U+2028, U+2029, U+202F, U+205F and U+3000.
\<close>

definition is_space :: "nat \<Rightarrow> bool" where
  "is_space c =
     (c \<in> {9, 10, 11, 12, 13, 28, 29, 30, 31, 32, 133, 160, 5760,
            8232, 8233, 8239, 8287, 12288}
      \<or> (8192 \<le> c \<and> c \<le> 8202))"

text \<open>
  The case mappings and the printable characters beyond ASCII are tables of the
  interpreter, not of the repository; they are a parameter of the model. \<open>upper_cp U c\<close> is
  the upper case of the code point \<open>c\<close>, which may be several code points;
  \<open>lower_text U s\<close> is \<^verbatim>\<open>s.lower()\<close> for a string with a code point from 128 up (the lower
  case of a sigma depends on its neighbours); \<open>printable U c\<close> is \<^verbatim>\<open>chr(c).isprintable()\<close>.
  On ASCII the functions below do not consult the tables.
\<close>

record unicode =
  upper_cp :: "nat \<Rightarrow> pystr"
  lower_text :: "pystr \<Rightarrow> pystr"
  printable :: "nat \<Rightarrow> bool"

definition ascii_upper :: "nat \<Rightarrow> nat" where
  "ascii_upper c = (if 97 \<le> c \<and> c \<le> 122 then c - 32 else c)"

definition ascii_lower :: "nat \<Rightarrow> nat" where
  "ascii_lower c = (if 65 \<le> c \<and> c \<le> 90 then c + 32 else c)"

definition upper_char :: "unicode \<Rightarrow> nat \<Rightarrow> pystr" where
  "upper_char U c = (if c < 128 then [ascii_upper c] else upper_cp U c)"

definition upper :: "unicode \<Rightarrow> pystr \<Rightarrow> pystr" where
  "upper U s = concat (map (upper_char U) s)"

definition lower :: "unicode \<Rightarrow> pystr \<Rightarrow> pystr" where
  "lower U s = (if list_all (\<lambda>c. c < 128) s then map ascii_lower s else lower_text U s)"

text \<open>\<^verbatim>\<open>s.strip()\<close> removes the whitespace at both ends; \<^verbatim>\<open>s.lstrip('@')\<close> removes
  every leading character that is in the given set, here every leading \<^verbatim>\<open>@\<close>.\<close>

definition strip :: "pystr \<Rightarrow> pystr" where
  "strip s = rev (dropWhile is_space (rev (dropWhile is_space s)))"

definition lstrip :: "pystr \<Rightarrow> pystr \<Rightarrow> pystr" where
  "lstrip chars s = dropWhile (\<lambda>c. c \<in> set chars) s"

text \<open>Decimal text of an integer, as \<^verbatim>\<open>str\<close> and an f-string print it.\<close>

fun digits :: "nat \<Rightarrow> pystr" where
  "digits n = (if n < 10 then [48 + n] else digits (n div 10) @ [48 + n mod 10])"

declare digits.simps [simp del]

definition str_int :: "int \<Rightarrow> pystr" where
  "str_int i = (if i < 0 then 45 # digits (nat (- i)) else digits (nat i))"

text \<open>
  \<^verbatim>\<open>repr\<close> of a string: single quotes unless the string has a single quote and no double
  quote; the quote in use and the backslash are escaped, and so is every character that is
  not printable: as \<^verbatim>\<open>\t\<close>, \<^verbatim>\<open>\n\<close>, \<^verbatim>\<open>\r\<close>, or with two, four or eight hexadecimal digits.
\<close>

definition hex_digit :: "nat \<Rightarrow> nat" where
  "hex_digit d = (if d < 10 then 48 + d else 87 + d)"

fun hex_digits :: "nat \<Rightarrow> nat \<Rightarrow> pystr" where
  "hex_digits 0 n = []"
| "hex_digits (Suc w) n = hex_digits w (n div 16) @ [hex_digit (n mod 16)]"

definition repr_char :: "unicode \<Rightarrow> nat \<Rightarrow> nat \<Rightarrow> pystr" where
  "repr_char U q c =
     (if c = q \<or> c = 92 then [92, c]
      else if c = 9 then [92, 116]
      else if c = 10 then [92, 110]
      else if c = 13 then [92, 114]
      else if c < 32 \<or> c = 127 then [92, 120] @ hex_digits 2 c
      else if c < 128 then [c]
      else if printable U c then [c]
      else if c < 256 then [92, 120] @ hex_digits 2 c
      else if c < 65536 then [92, 117] @ hex_digits 4 c
      else [92, 85] @ hex_digits 8 c)"

definition repr_str :: "unicode \<Rightarrow> pystr \<Rightarrow> pystr" where
  "repr_str U s =
     (let q = (if 39 \<in> set s \<and> 34 \<notin> set s then 34 else 39)
      in q # concat (map (repr_char U q) s) @ [q])"

fun join :: "'a list \<Rightarrow> 'a list list \<Rightarrow> 'a list" where
  "join sep [] = []"
| "join sep [x] = x"
| "join sep (x # y # ys) = x @ sep @ join sep (y # ys)"

fun py_repr :: "unicode \<Rightarrow> json \<Rightarrow> pystr" where
  "py_repr U JNull = ustr ''None''"
| "py_repr U (JBool b) = (if b then ustr ''True'' else ustr ''False'')"
| "py_repr U (JInt i) = str_int i"
| "py_repr U (JStr s) = repr_str U s"
| "py_repr U (JList xs) = ustr ''['' @ join (ustr '', '') (map (py_repr U) xs) @ ustr '']''"
| "py_repr U (JObj kvs) =
     ustr ''{''
       @ join (ustr '', '')
           (map (\<lambda>kv. repr_str U (ustr (fst kv)) @ ustr '': '' @ py_repr U (snd kv)) kvs)
       @ ustr ''}''"

text \<open>\<^verbatim>\<open>str(x)\<close>, also what \<^verbatim>\<open>f"{x}"\<close> inserts: a string is itself.\<close>

fun py_str :: "unicode \<Rightarrow> json \<Rightarrow> pystr" where
  "py_str U (JStr s) = s"
| "py_str U v = py_repr U v"

subsection \<open>Header values\<close>

text \<open>
  The names and values of response headers reach the program decoded as Latin-1: one
  character per byte, which \<open>string\<close> is. \<^verbatim>\<open>int(s)\<close> on such a string skips the whitespace
  9 to 13, 32, U+0085 and U+00A0 at both ends (not 28 to 31, which \<^verbatim>\<open>strip\<close> would
  remove); a sign may lead; the digits may be grouped by single underscores; anything else
  is a \<^verbatim>\<open>ValueError\<close>.
\<close>

definition int_space :: "char \<Rightarrow> bool" where
  "int_space c = (of_char c \<in> {9, 10, 11, 12, 13, 32, 133, 160 :: nat})"

definition is_digit :: "char \<Rightarrow> bool" where
  "is_digit c = (let n = of_char c :: nat in 48 \<le> n \<and> n \<le> 57)"

definition digit_groups_ok :: "string \<Rightarrow> bool" where
  "digit_groups_ok cs =
     (cs \<noteq> [] \<and> list_all (\<lambda>c. is_digit c \<or> c = CHR ''_'') cs
      \<and> hd cs \<noteq> CHR ''_'' \<and> last cs \<noteq> CHR ''_''
      \<and> \<not> list_ex (\<lambda>p. fst p = CHR ''_'' \<and> snd p = CHR ''_'') (zip cs (tl cs)))"

definition digits_value :: "string \<Rightarrow> nat" where
  "digits_value cs = foldl (\<lambda>acc c. 10 * acc + (of_char c - 48)) 0 (filter is_digit cs)"

definition py_int :: "string \<Rightarrow> error + int" where
  "py_int s =
     (let t = rev (dropWhile int_space (rev (dropWhile int_space s)));
          neg = (t \<noteq> [] \<and> hd t = CHR ''-'');
          ds = (if t \<noteq> [] \<and> (hd t = CHR ''-'' \<or> hd t = CHR ''+'') then tl t else t)
      in if digit_groups_ok ds
         then Inr (if neg then - int (digits_value ds) else int (digits_value ds))
         else Inl ValueError)"

text \<open>
  Header names are matched without regard to case (\<^verbatim>\<open>str.lower\<close>, here on Latin-1), and
  the values of the lines that bear the same name are joined with a comma and a blank.
\<close>

definition latin1_lower :: "char \<Rightarrow> char" where
  "latin1_lower c =
     (let n = of_char c :: nat in
      if (65 \<le> n \<and> n \<le> 90) \<or> (192 \<le> n \<and> n \<le> 222 \<and> n \<noteq> 215)
      then char_of (n + 32) else c)"

definition header_get :: "(string \<times> string) list \<Rightarrow> string \<Rightarrow> string option" where
  "header_get hs k =
     (let vs = map snd (filter (\<lambda>h. map latin1_lower (fst h) = map latin1_lower k) hs)
      in if vs = [] then None else Some (join '', '' vs))"

section \<open>The company normalizer\<close>

text \<open>
  \<^verbatim>\<open>
  def clean_company_name(self, company):
      if not company:
          return ""
      cleaned = company.strip().lstrip('@').upper()
      return cleaned
  \<close>
  The argument is \<^verbatim>\<open>user_data.get('company')\<close>, any JSON value; a true value that is not a
  string has no \<^verbatim>\<open>strip\<close> method.
\<close>

fun clean_company_name :: "unicode \<Rightarrow> json \<Rightarrow> error + pystr" where
  "clean_company_name U company =
     (if \<not> truthy company then Inr []
      else case company of
             JStr s \<Rightarrow> Inr (upper U (lstrip (ustr ''@'') (strip s)))
           | _ \<Rightarrow> Inl AttributeError)"

text \<open>The normalizer in the words of the specification: trim, strip a single leading
  \<^verbatim>\<open>@\<close> if present, uppercase; the empty string for empty or absent input.\<close>

definition spec_normalize_company :: "unicode \<Rightarrow> pystr option \<Rightarrow> pystr" where
  "spec_normalize_company U company =
     (case company of
        None \<Rightarrow> []
      | Some s \<Rightarrow>
          (case strip s of
             [] \<Rightarrow> []
           | c # cs \<Rightarrow> if c = 64 then upper U cs else upper U (c # cs)))"

text \<open>
  What the idempotence of the normalizer needs of the upper-case table, and Python's table
  has: the upper case of a code point from 128 up is not empty, does not begin with
  \<^verbatim>\<open>@\<close>, does not end with whitespace unless the code point is whitespace, and is its own
  upper case.
\<close>

definition upper_table_closed :: "unicode \<Rightarrow> bool" where
  "upper_table_closed U =
     (\<forall>c\<ge>128. upper_cp U c \<noteq> [] \<and> hd (upper_cp U c) \<noteq> 64
        \<and> (\<not> is_space c \<longrightarrow> \<not> is_space (last (upper_cp U c)))
        \<and> upper U (upper_cp U c) = upper_cp U c)"

section \<open>The HTTP client wrapper\<close>

text \<open>
  The scraper object holds the request headers built from the token, and the base URL.
\<close>

record scraper =
  req_headers :: "(string \<times> pystr) list"
  base_url :: pystr

definition init_scraper :: "pystr \<Rightarrow> scraper" where
  "init_scraper token =
     \<lparr> req_headers = [(''Authorization'', ustr ''token '' @ token),
                       (''Accept'', ustr ''application/vnd.github.v3+json'')],
       base_url = ustr ''https://api.github.com'' \<rparr>"

record request =
  url :: pystr
  sent_headers :: "(string \<times> pystr) list"
  params :: "(string \<times> json) list option"

text \<open>
  A response carries its status, its headers and the value of \<^verbatim>\<open>response.json()\<close>
  (the upstream API answers in JSON).
\<close>

record response =
  status_code :: int
  headers :: "(string \<times> string) list"
  json_body :: json

text \<open>
  The environment is everything outside the repository's code. \<open>respond e n r\<close> is the
  answer to the request \<open>r\<close> when it is the \<open>n\<close>-th request of the run (counted from 0),
  \<open>None\<close> when \<^verbatim>\<open>requests.get\<close> raises instead of answering; \<open>clock e n\<close> is what
  \<^verbatim>\<open>time.time()\<close> reads while that answer is handled (time is a real number); \<open>tables e\<close>
  are the interpreter's character tables.

  The world is what the run has done so far: the requests sent and the sleeps taken. Log
  lines are not recorded.
\<close>

record env =
  respond :: "nat \<Rightarrow> request \<Rightarrow> response option"
  clock :: "nat \<Rightarrow> real"
  tables :: unicode

type_synonym row = "(string \<times> json) list"

record world =
  sent :: "request list"
  slept :: "real list"

text \<open>
  A call either ends, with an exception or a value, in a new world, or does not end within
  the fuel it was given (\<open>None\<close>). The fuel bounds the depth of the loops that have no
  bound of their own: the retry loop of a request and the loop over the pages.
\<close>

type_synonym 'a outcome = "((error + 'a) \<times> world) option"

text \<open>\<^verbatim>\<open>int(response.headers.get('X-RateLimit-Reset', 0))\<close>\<close>

definition reset_time :: "response \<Rightarrow> error + int" where
  "reset_time resp =
     (case header_get (headers resp) ''X-RateLimit-Reset'' of
        None \<Rightarrow> Inr 0
      | Some v \<Rightarrow> py_int v)"

text \<open>\<^verbatim>\<open>response.raise_for_status()\<close> raises for the statuses 400 to 599 and returns
  for every other one.\<close>

definition raises_for_status :: "response \<Rightarrow> bool" where
  "raises_for_status resp = (400 \<le> status_code resp \<and> status_code resp < 600)"

text \<open>
  \<^verbatim>\<open>
  def _make_request(self, url, params=None):
      while True:
          response = requests.get(url, headers=self.headers, params=params)
          if response.status_code == 200:
              return response.json()
          elif response.status_code == 403:
              reset_time = int(response.headers.get('X-RateLimit-Reset', 0))
              sleep_time = max(reset_time - time.time(), 0) + 1
              time.sleep(sleep_time)
          else:
              response.raise_for_status()
  \<close>
\<close>

definition request_of :: "scraper \<Rightarrow> pystr \<Rightarrow> (string \<times> json) list option \<Rightarrow> request" where
  "request_of self u ps = \<lparr> url = u, sent_headers = req_headers self, params = ps \<rparr>"

fun make_request ::
  "nat \<Rightarrow> scraper \<Rightarrow> env \<Rightarrow> world \<Rightarrow> pystr \<Rightarrow> (string \<times> json) list option \<Rightarrow> json outcome"
where
  "make_request 0 self e w u ps = None"
| "make_request (Suc k) self e w u ps =
     (let r = request_of self u ps;
          n = length (sent w);
          w1 = w\<lparr> sent := sent w @ [r] \<rparr>
      in case respond e n r of
           None \<Rightarrow> Some (Inl RequestException, w1)
         | Some resp \<Rightarrow>
             if status_code resp = 200 then Some (Inr (json_body resp), w1)
             else if status_code resp = 403 then
               (case reset_time resp of
                  Inl err \<Rightarrow> Some (Inl err, w1)
                | Inr t \<Rightarrow>
                    let sleep_time = max (real_of_int t - clock e n) 0 + 1
                    in make_request k self e (w1\<lparr> slept := slept w1 @ [sleep_time] \<rparr>) u ps)
             else if raises_for_status resp
               then Some (Inl (HTTPError (status_code resp)), w1)
             else make_request k self e w1 u ps)"

section \<open>The user search\<close>

text \<open>The dictionary literal of \<^verbatim>\<open>search_users\<close>; its entries are evaluated in order,
  and the first failing lookup raises.\<close>

definition or_empty :: "json \<Rightarrow> json" where
  "or_empty v = (if truthy v then v else JStr [])"

definition clean_user :: "unicode \<Rightarrow> json \<Rightarrow> error + row" where
  "clean_user U user_data =
     bindE (getitem user_data ''login'') (\<lambda>login.
     bindE (getitem user_data ''name'') (\<lambda>name.
     bindE (bindE (dict_get user_data ''company'') (clean_company_name U)) (\<lambda>company.
     bindE (getitem user_data ''location'') (\<lambda>location.
     bindE (getitem user_data ''email'') (\<lambda>email.
     bindE (getitem user_data ''hireable'') (\<lambda>hireable.
     bindE (getitem user_data ''bio'') (\<lambda>bio.
     bindE (getitem user_data ''public_repos'') (\<lambda>public_repos.
     bindE (getitem user_data ''followers'') (\<lambda>followers.
     bindE (getitem user_data ''following'') (\<lambda>following.
     bindE (getitem user_data ''created_at'') (\<lambda>created_at.
       Inr [(''login'', login),
            (''name'', or_empty name),
            (''company'', JStr company),
            (''location'', or_empty location),
            (''email'', or_empty email),
            (''hireable'',
               if hireable \<noteq> JNull then JStr (lower U (py_str U hireable)) else JStr []),
            (''bio'', or_empty bio),
            (''public_repos'', public_repos),
            (''followers'', followers),
            (''following'', following),
            (''created_at'', created_at)])))))))))))"

text \<open>The loop \<^verbatim>\<open>for user in response['items']\<close>: one detail request per item. A URL
  that is not a string makes \<^verbatim>\<open>requests.get\<close> raise before anything is sent.\<close>

fun enrich ::
  "nat \<Rightarrow> scraper \<Rightarrow> env \<Rightarrow> world \<Rightarrow> json list \<Rightarrow> row list \<Rightarrow> row list outcome"
where
  "enrich k self e w [] users = Some (Inr users, w)"
| "enrich k self e w (user # rest) users =
     (case getitem user ''url'' of
        Inl err \<Rightarrow> Some (Inl err, w)
      | Inr (JStr u) \<Rightarrow>
          (case make_request k self e w u None of
             None \<Rightarrow> None
           | Some (Inl err, w1) \<Rightarrow> Some (Inl err, w1)
           | Some (Inr user_data, w1) \<Rightarrow>
               (case clean_user (tables e) user_data of
                  Inl err \<Rightarrow> Some (Inl err, w1)
                | Inr cleaned_data \<Rightarrow> enrich k self e w1 rest (users @ [cleaned_data])))
      | Inr _ \<Rightarrow> Some (Inl RequestException, w))"

definition search_params :: "pystr \<Rightarrow> int \<Rightarrow> int \<Rightarrow> (string \<times> json) list" where
  "search_params location min_followers page =
     [(''q'', JStr (ustr ''location:'' @ location @ ustr '' followers:>=''
                      @ str_int min_followers)),
      (''per_page'', JInt 100),
      (''page'', JInt page)]"

text \<open>The loop \<^verbatim>\<open>while True\<close> of \<^verbatim>\<open>search_users\<close>, from the page and the users
  reached so far. A true \<^verbatim>\<open>items\<close> that is not a list raises a \<^verbatim>\<open>TypeError\<close> before
  any request: it cannot be iterated, or its elements are strings.\<close>

fun search_pages ::
  "nat \<Rightarrow> scraper \<Rightarrow> env \<Rightarrow> world \<Rightarrow> pystr \<Rightarrow> int \<Rightarrow> int \<Rightarrow> row list \<Rightarrow> row list outcome"
where
  "search_pages 0 self e w location min_followers page users = None"
| "search_pages (Suc k) self e w location min_followers page users =
     (case make_request k self e w (base_url self @ ustr ''/search/users'')
             (Some (search_params location min_followers page)) of
        None \<Rightarrow> None
      | Some (Inl err, w1) \<Rightarrow> Some (Inl err, w1)
      | Some (Inr response, w1) \<Rightarrow>
          (case dict_get response ''items'' of
             Inl err \<Rightarrow> Some (Inl err, w1)
           | Inr items \<Rightarrow>
               if \<not> truthy items then Some (Inr users, w1)
               else (case items of
                       JList us \<Rightarrow>
                         (case enrich k self e w1 us users of
                            None \<Rightarrow> None
                          | Some (Inl err, w2) \<Rightarrow> Some (Inl err, w2)
                          | Some (Inr users', w2) \<Rightarrow>
                              search_pages k self e w2 location min_followers (page + 1) users')
                     | _ \<Rightarrow> Some (Inl TypeError, w1))))"

definition search_users ::
  "nat \<Rightarrow> scraper \<Rightarrow> env \<Rightarrow> world \<Rightarrow> pystr \<Rightarrow> int \<Rightarrow> row list outcome"
where
  "search_users k self e w location min_followers =
     search_pages k self e w location min_followers 1 []"

text \<open>
  The request for one page of the search, and the requests a search is expected to send
  when it is served the given pages, each non-empty, and then an empty one: for every page
  the page request followed by one detail request per item, and a last page request.
\<close>

definition search_request :: "scraper \<Rightarrow> pystr \<Rightarrow> int \<Rightarrow> int \<Rightarrow> request" where
  "search_request self location min_followers page =
     request_of self (base_url self @ ustr ''/search/users'')
       (Some (search_params location min_followers page))"

fun search_trace ::
  "scraper \<Rightarrow> pystr \<Rightarrow> int \<Rightarrow> (json \<Rightarrow> pystr) \<Rightarrow> int \<Rightarrow> json list list \<Rightarrow> request list"
where
  "search_trace self location min_followers urlf page [] =
     [search_request self location min_followers page]"
| "search_trace self location min_followers urlf page (items # pages) =
     search_request self location min_followers page
       # map (\<lambda>item. request_of self (urlf item) None) items
       @ search_trace self location min_followers urlf (page + 1) pages"

text \<open>An answer after which \<^verbatim>\<open>_make_request\<close> asks again: a 403 with a readable reset
  header, or a status other than 200 for which \<^verbatim>\<open>raise_for_status\<close> returns.\<close>

definition retried :: "response option \<Rightarrow> bool" where
  "retried reply =
     (case reply of
        None \<Rightarrow> False
      | Some resp \<Rightarrow>
          status_code resp \<noteq> 200 \<and>
          (if status_code resp = 403
           then (case reset_time resp of Inl err \<Rightarrow> False | Inr t \<Rightarrow> True)
           else \<not> raises_for_status resp))"

section \<open>The repositories of a user\<close>

definition clean_repo :: "unicode \<Rightarrow> json \<Rightarrow> json \<Rightarrow> error + row" where
  "clean_repo U username repo =
     bindE (getitem repo ''full_name'') (\<lambda>full_name.
     bindE (getitem repo ''created_at'') (\<lambda>created_at.
     bindE (getitem repo ''stargazers_count'') (\<lambda>stargazers_count.
     bindE (getitem repo ''watchers_count'') (\<lambda>watchers_count.
     bindE (getitem repo ''language'') (\<lambda>language.
     bindE (getitem repo ''has_projects'') (\<lambda>has_projects.
     bindE (getitem repo ''has_wiki'') (\<lambda>has_wiki.
     bindE (dict_get repo ''license'') (\<lambda>lic.
     bindE (if truthy lic
            then bindE (getitem repo ''license'') (\<lambda>l. getitem l ''key'')
            else Inr (JStr [])) (\<lambda>license_name.
       Inr [(''login'', username),
            (''full_name'', full_name),
            (''created_at'', created_at),
            (''stargazers_count'', stargazers_count),
            (''watchers_count'', watchers_count),
            (''language'', or_empty language),
            (''has_projects'', JStr (lower U (py_str U has_projects))),
            (''has_wiki'', JStr (lower U (py_str U has_wiki))),
            (''license_name'', license_name)])))))))))"

text \<open>The loop \<^verbatim>\<open>for repo in response\<close>.\<close>

fun append_repos :: "unicode \<Rightarrow> json \<Rightarrow> json list \<Rightarrow> row list \<Rightarrow> error + row list" where
  "append_repos U username [] repos = Inr repos"
| "append_repos U username (repo # rest) repos =
     bindE (clean_repo U username repo) (\<lambda>repo_data.
       append_repos U username rest (repos @ [repo_data]))"

definition repo_params :: "int \<Rightarrow> (string \<times> json) list" where
  "repo_params page =
     [(''sort'', JStr (ustr ''pushed'')),
      (''direction'', JStr (ustr ''desc'')),
      (''per_page'', JInt 100),
      (''page'', JInt page)]"

definition repos_url :: "unicode \<Rightarrow> scraper \<Rightarrow> json \<Rightarrow> pystr" where
  "repos_url U self username =
     base_url self @ ustr ''/users/'' @ py_str U username @ ustr ''/repos''"

text \<open>The loop \<^verbatim>\<open>while len(repos) < max_repos\<close>. A true response that is not a list
  raises a \<^verbatim>\<open>TypeError\<close>, as in the user search.\<close>

fun repo_pages ::
  "nat \<Rightarrow> scraper \<Rightarrow> env \<Rightarrow> world \<Rightarrow> json \<Rightarrow> int \<Rightarrow> int \<Rightarrow> row list \<Rightarrow> row list outcome"
where
  "repo_pages 0 self e w username max_repos page repos = None"
| "repo_pages (Suc k) self e w username max_repos page repos =
     (if \<not> int (length repos) < max_repos then Some (Inr repos, w)
      else case make_request k self e w (repos_url (tables e) self username)
                  (Some (repo_params page)) of
             None \<Rightarrow> None
           | Some (Inl err, w1) \<Rightarrow> Some (Inl err, w1)
           | Some (Inr response, w1) \<Rightarrow>
               if \<not> truthy response then Some (Inr repos, w1)
               else (case response of
                       JList rs \<Rightarrow>
                         (case append_repos (tables e) username rs repos of
                            Inl err \<Rightarrow> Some (Inl err, w1)
                          | Inr repos' \<Rightarrow>
                              if length rs < 100 then Some (Inr repos', w1)
                              else repo_pages k self e w1 username max_repos (page + 1) repos')
                     | _ \<Rightarrow> Some (Inl TypeError, w1)))"

text \<open>The slice \<^verbatim>\<open>xs[:n]\<close>; a negative bound counts from the end.\<close>

definition slice_to :: "'a list \<Rightarrow> int \<Rightarrow> 'a list" where
  "slice_to xs n = (if 0 \<le> n then take (nat n) xs else take (length xs - nat (- n)) xs)"

definition get_user_repositories ::
  "nat \<Rightarrow> scraper \<Rightarrow> env \<Rightarrow> world \<Rightarrow> json \<Rightarrow> int \<Rightarrow> row list outcome"
where
  "get_user_repositories k self e w username max_repos =
     (case repo_pages k self e w username max_repos 1 [] of
        None \<Rightarrow> None
      | Some (Inl err, w1) \<Rightarrow> Some (Inl err, w1)
      | Some (Inr repos, w1) \<Rightarrow> Some (Inr (slice_to repos max_repos), w1))"

text \<open>
  The upstream's side of a listing, written out from its API and not from the code above:
  the request, made with a token, for one page of the repositories of the user \<open>name\<close>,
  sorted by the time of the last push, the latest first, 100 to a page.
\<close>

definition pushed_listing_request :: "pystr \<Rightarrow> pystr \<Rightarrow> nat \<Rightarrow> request" where
  "pushed_listing_request token name page =
     \<lparr> url = ustr ''https://api.github.com/users/'' @ name @ ustr ''/repos'',
       sent_headers = [(''Authorization'', ustr ''token '' @ token),
                       (''Accept'', ustr ''application/vnd.github.v3+json'')],
       params = Some [(''sort'', JStr (ustr ''pushed'')),
                      (''direction'', JStr (ustr ''desc'')),
                      (''per_page'', JInt 100),
                      (''page'', JInt (int page))] \<rparr>"

section \<open>Collecting the repositories of all users\<close>

text \<open>
  The loop of lines 167 to 170, over the users found, with the default
  \<^verbatim>\<open>max_repos = 500\<close>:
  \<^verbatim>\<open>
  all_repos = []
  for user in users:
      repos = scraper.get_user_repositories(user['login'])
      all_repos.extend(repos)
  \<close>
\<close>

fun collect_repos ::
  "nat \<Rightarrow> scraper \<Rightarrow> env \<Rightarrow> world \<Rightarrow> row list \<Rightarrow> row list \<Rightarrow> row list outcome"
where
  "collect_repos k self e w [] all_repos = Some (Inr all_repos, w)"
| "collect_repos k self e w (user # rest) all_repos =
     (case map_of user ''login'' of
        None \<Rightarrow> Some (Inl (KeyError ''login''), w)
      | Some login \<Rightarrow>
          (case get_user_repositories k self e w login 500 of
             None \<Rightarrow> None
           | Some (Inl err, w1) \<Rightarrow> Some (Inl err, w1)
           | Some (Inr repos, w1) \<Rightarrow> collect_repos k self e w1 rest (all_repos @ repos)))"

text \<open>
  The same orchestration in the words of the specification: for every discovered user, in
  discovery order, the sequence of repositories fetched for it; the final collection is
  the concatenation of these sequences.
\<close>

fun per_user_repos ::
  "nat \<Rightarrow> scraper \<Rightarrow> env \<Rightarrow> world \<Rightarrow> row list \<Rightarrow> row list list outcome"
where
  "per_user_repos k self e w [] = Some (Inr [], w)"
| "per_user_repos k self e w (user # rest) =
     (case map_of user ''login'' of
        None \<Rightarrow> Some (Inl (KeyError ''login''), w)
      | Some login \<Rightarrow>
          (case get_user_repositories k self e w login 500 of
             None \<Rightarrow> None
           | Some (Inl err, w1) \<Rightarrow> Some (Inl err, w1)
           | Some (Inr repos, w1) \<Rightarrow>
               (case per_user_repos k self e w1 rest of
                  None \<Rightarrow> None
                | Some (Inl err, w2) \<Rightarrow> Some (Inl err, w2)
                | Some (Inr rss, w2) \<Rightarrow> Some (Inr (repos # rss), w2))))"

section \<open>Sample data\<close>

text \<open>
  Sample character tables: Python's on the code points below 256; above, where the samples
  have no character, they leave the characters alone.
\<close>

definition latin1_upper_cp :: "nat \<Rightarrow> pystr" where
  "latin1_upper_cp c =
     (if c = 181 then [924]
      else if c = 223 then [83, 83]
      else if c = 255 then [376]
      else if 224 \<le> c \<and> c \<le> 254 \<and> c \<noteq> 247 then [c - 32]
      else [c])"

definition latin1_lower_text :: "pystr \<Rightarrow> pystr" where
  "latin1_lower_text s =
     map (\<lambda>c. if c < 128 then ascii_lower c
              else if 192 \<le> c \<and> c \<le> 222 \<and> c \<noteq> 215 then c + 32
              else c) s"

definition latin1_tables :: unicode where
  "latin1_tables =
     \<lparr> upper_cp = latin1_upper_cp,
       lower_text = latin1_lower_text,
       printable = (\<lambda>c. \<not> (128 \<le> c \<and> c \<le> 160) \<and> c \<noteq> 173) \<rparr>"

text \<open>A repository and a profile as the upstream API sends them, an environment that answers
  every request with the same two repositories, and the world before the run.\<close>

definition sample_repo :: json where
  "sample_repo = JObj
     [(''full_name'', JStr (ustr ''octocat/Hello-World'')),
      (''created_at'', JStr (ustr ''2011-01-26T19:01:12Z'')),
      (''stargazers_count'', JInt 80),
      (''watchers_count'', JInt 80),
      (''language'', JNull),
      (''has_projects'', JBool True),
      (''has_wiki'', JBool False),
      (''license'', JObj [(''key'', JStr (ustr ''mit'')), (''name'', JStr (ustr ''MIT License''))])]"

definition ok_response :: "json \<Rightarrow> response" where
  "ok_response j = \<lparr> status_code = 200, headers = [], json_body = j \<rparr>"

definition two_repos_env :: env where
  "two_repos_env =
     \<lparr> respond = (\<lambda>n r. Some (ok_response (JList [sample_repo, sample_repo]))),
       clock = (\<lambda>n. 0),
       tables = latin1_tables \<rparr>"

definition world0 :: world where
  "world0 = \<lparr> sent = [], slept = [] \<rparr>"

text \<open>A profile whose optional fields are null and whose company is absent.\<close>

definition sample_user_fields :: "(string \<times> json) list" where
  "sample_user_fields =
     [(''login'', JStr (ustr ''octocat'')),
      (''name'', JNull),
      (''location'', JStr (ustr ''Bangalore'')),
      (''email'', JNull),
      (''hireable'', JNull),
      (''bio'', JNull),
      (''public_repos'', JInt 8),
      (''followers'', JInt 9000),
      (''following'', JInt 9),
      (''created_at'', JStr (ustr ''2011-01-25T18:44:36Z''))]"

definition sample_user :: json where
  "sample_user = JObj sample_user_fields"

text \<open>
  An upstream whose first answer is given and whose later answers are all the profile, with
  a clock that stands at 100; three first answers: a rate-limit refusal, a refusal for
  another reason while quota remains, and a 204.
\<close>

definition retry_env :: "response \<Rightarrow> env" where
  "retry_env first =
     \<lparr> respond = (\<lambda>n r. if n = 0 then Some first else Some (ok_response sample_user)),
       clock = (\<lambda>n. 100),
       tables = latin1_tables \<rparr>"

definition rate_limited_response :: response where
  "rate_limited_response =
     \<lparr> status_code = 403,
       headers = [(''X-RateLimit-Remaining'', ''0''), (''X-RateLimit-Reset'', ''105'')],
       json_body = JObj [(''message'', JStr (ustr ''API rate limit exceeded''))] \<rparr>"

definition forbidden_response :: response where
  "forbidden_response =
     \<lparr> status_code = 403,
       headers = [(''X-RateLimit-Remaining'', ''4999''), (''X-RateLimit-Reset'', ''105'')],
       json_body = JObj [(''message'', JStr (ustr ''Repository access blocked''))] \<rparr>"

definition no_content_response :: response where
  "no_content_response = \<lparr> status_code = 204, headers = [], json_body = JNull \<rparr>"

definition octocat_url :: pystr where
  "octocat_url = ustr ''https://api.github.com/users/octocat''"

text \<open>
  An upstream that holds the repositories of one user, most recently pushed first, and
  serves them as the request asks: in that order when the sort is by push time, descending,
  and in the opposite order otherwise; by pages of the size asked for (30 when none is),
  and only at the URL of that user with the token of the run.
\<close>

definition page_of :: "request \<Rightarrow> int" where
  "page_of r =
     (case params r of
        None \<Rightarrow> 1
      | Some ps \<Rightarrow> (case map_of ps ''page'' of Some (JInt p) \<Rightarrow> p | _ \<Rightarrow> 1))"

definition per_page_of :: "request \<Rightarrow> nat" where
  "per_page_of r =
     (case params r of
        None \<Rightarrow> 30
      | Some ps \<Rightarrow> (case map_of ps ''per_page'' of Some (JInt n) \<Rightarrow> nat n | _ \<Rightarrow> 30))"

definition pushed_desc :: "request \<Rightarrow> bool" where
  "pushed_desc r =
     (case params r of
        None \<Rightarrow> False
      | Some ps \<Rightarrow> map_of ps ''sort'' = Some (JStr (ustr ''pushed''))
                  \<and> map_of ps ''direction'' = Some (JStr (ustr ''desc'')))"

definition listing_env :: "pystr \<Rightarrow> pystr \<Rightarrow> json list \<Rightarrow> env" where
  "listing_env token name listing =
     \<lparr> respond = (\<lambda>n r.
         if url r = ustr ''https://api.github.com/users/'' @ name @ ustr ''/repos''
            \<and> map_of (sent_headers r) ''Authorization'' = Some (ustr ''token '' @ token)
         then Some (ok_response
                (JList (take (per_page_of r)
                          (drop (per_page_of r * (nat (page_of r) - 1))
                             (if pushed_desc r then listing else rev listing)))))
         else Some \<lparr> status_code = 404, headers = [],
                     json_body = JObj [(''message'', JStr (ustr ''Not Found''))] \<rparr>),
       clock = (\<lambda>n. 0),
       tables = latin1_tables \<rparr>"

text \<open>The \<open>i\<close>-th repository of a numbered listing, and its row.\<close>

definition numbered_repo :: "nat \<Rightarrow> json" where
  "numbered_repo i = JObj
     [(''full_name'', JStr (ustr ''octocat/repo'' @ digits i)),
      (''created_at'', JStr (ustr ''2011-01-26T19:01:12Z'')),
      (''stargazers_count'', JInt (int i)),
      (''watchers_count'', JInt (int i)),
      (''language'', JStr (ustr ''Python'')),
      (''has_projects'', JBool True),
      (''has_wiki'', JBool True),
      (''license'', JNull)]"

definition numbered_row :: "json \<Rightarrow> nat \<Rightarrow> row" where
  "numbered_row username i =
     [(''login'', username),
      (''full_name'', JStr (ustr ''octocat/repo'' @ digits i)),
      (''created_at'', JStr (ustr ''2011-01-26T19:01:12Z'')),
      (''stargazers_count'', JInt (int i)),
      (''watchers_count'', JInt (int i)),
      (''language'', JStr (ustr ''Python'')),
      (''has_projects'', JStr (ustr ''true'')),
      (''has_wiki'', JStr (ustr ''true'')),
      (''license_name'', JStr [])]"

text \<open>
  An upstream with \<open>nusers\<close> users, numbered from 0: the search serves them in pages of 100,
  and the detail URL of a user serves a profile whose login is the end of the URL.
\<close>

definition user_url :: "nat \<Rightarrow> pystr" where
  "user_url i = ustr ''https://api.github.com/users/user'' @ digits i"

definition search_item :: "nat \<Rightarrow> json" where
  "search_item i =
     JObj [(''login'', JStr (ustr ''user'' @ digits i)), (''url'', JStr (user_url i))]"

definition item_url :: "json \<Rightarrow> pystr" where
  "item_url item = (case getitem item ''url'' of Inr (JStr u) \<Rightarrow> u | _ \<Rightarrow> [])"

definition profile_of_url :: "pystr \<Rightarrow> json" where
  "profile_of_url u = JObj
     [(''login'', JStr (drop 29 u)),
      (''name'', JNull),
      (''company'', JStr (ustr ''@github '')),
      (''location'', JStr (ustr ''Bangalore'')),
      (''email'', JNull),
      (''hireable'', JBool True),
      (''bio'', JNull),
      (''public_repos'', JInt 8),
      (''followers'', JInt 9000),
      (''following'', JInt 9),
      (''created_at'', JStr (ustr ''2011-01-25T18:44:36Z''))]"

definition profile_row :: "pystr \<Rightarrow> row" where
  "profile_row u =
     [(''login'', JStr (drop 29 u)),
      (''name'', JStr []),
      (''company'', JStr (ustr ''GITHUB'')),
      (''location'', JStr (ustr ''Bangalore'')),
      (''email'', JStr []),
      (''hireable'', JStr (ustr ''true'')),
      (''bio'', JStr []),
      (''public_repos'', JInt 8),
      (''followers'', JInt 9000),
      (''following'', JInt 9),
      (''created_at'', JStr (ustr ''2011-01-25T18:44:36Z''))]"

definition search_page :: "nat \<Rightarrow> int \<Rightarrow> json list" where
  "search_page nusers page =
     map search_item (take 100 (drop (100 * (nat page - 1)) [0..<nusers]))"

definition search_env :: "nat \<Rightarrow> env" where
  "search_env nusers =
     \<lparr> respond = (\<lambda>n r.
         case params r of
           Some ps \<Rightarrow> Some (ok_response (JObj [(''total_count'', JInt (int nusers)),
                                               (''items'', JList (search_page nusers (page_of r)))]))
         | None \<Rightarrow> Some (ok_response (profile_of_url (url r)))),
       clock = (\<lambda>n. 0),
       tables = latin1_tables \<rparr>"

text \<open>
  An upstream with one user whose profile is refused with 403 at every request, while the
  search serves that user on page 1 and an empty page from page 2 on.
\<close>

definition stuck_reply :: "request \<Rightarrow> response option" where
  "stuck_reply r =
     (case params r of
        Some ps \<Rightarrow> Some (ok_response (JObj [(''total_count'', JInt 1),
                                            (''items'', JList (search_page 1 (page_of r)))]))
      | None \<Rightarrow> Some forbidden_response)"

definition stuck_env :: env where
  "stuck_env =
     \<lparr> respond = (\<lambda>n. stuck_reply), clock = (\<lambda>n. 100), tables = latin1_tables \<rparr>"

section \<open>Basic facts\<close>

lemma bindE_Inr: "(bindE m f = Inr y) = (\<exists>x. m = Inr x \<and> f x = Inr y)"
  by (cases m) (simp_all add: bindE_def)

lemma bindE_Inr_simp [simp]: "bindE (Inr x) f = f x"
  by (simp add: bindE_def)

lemma bindE_Inl_simp [simp]: "bindE (Inl x) f = Inl x"
  by (simp add: bindE_def)

lemma lower_true: "lower U (py_str U (JBool True)) = ustr ''true''"
  by (simp add: lower_def ustr_def ascii_lower_def)

section \<open>Properties of the company normalizer\<close>

lemma last_dropWhile: "dropWhile P xs \<noteq> [] \<Longrightarrow> last (dropWhile P xs) = last xs"
  by (induction xs) (auto split: if_splits)

lemma strip_fixed:
  assumes "s = [] \<or> (\<not> is_space (hd s) \<and> \<not> is_space (last s))"
  shows "strip s = s"
proof (cases s)
  case Nil
  then show ?thesis by (simp add: strip_def)
next
  case (Cons c cs)
  with assms have h: "\<not> is_space c" and l: "\<not> is_space (last s)" by auto
  from Cons h have 1: "dropWhile is_space s = s" by simp
  from Cons have "rev s \<noteq> []" by simp
  moreover have "hd (rev s) = last s" using Cons by (simp add: hd_rev)
  ultimately have 2: "dropWhile is_space (rev s) = rev s"
    using l by (simp add: dropWhile_eq_self_iff)
  show ?thesis by (simp add: strip_def 1 2)
qed

lemma strip_last:
  assumes "strip s \<noteq> []"
  shows "\<not> is_space (last (strip s))"
proof -
  let ?d = "dropWhile is_space (rev (dropWhile is_space s))"
  from assms have ne: "?d \<noteq> []" by (simp add: strip_def)
  then have "\<not> is_space (hd ?d)" by (simp add: hd_dropWhile)
  moreover have "last (strip s) = hd ?d" using ne by (simp add: strip_def last_rev)
  ultimately show ?thesis by simp
qed

lemma strip_sandwich:
  assumes a: "list_all is_space a" and b: "list_all is_space b"
    and core: "core = [] \<or> (\<not> is_space (hd core) \<and> \<not> is_space (last core))"
  shows "strip (a @ core @ b) = core"
proof (cases core)
  case Nil
  have d: "dropWhile is_space (a @ b) = []"
    using a b by (simp add: list_all_iff)
  show ?thesis unfolding Nil strip_def
    by (simp only: append_Nil d rev.simps dropWhile.simps)
next
  case (Cons c cs)
  with core have h: "\<not> is_space c" and l: "\<not> is_space (last core)" by auto
  have 1: "dropWhile is_space (a @ core @ b) = core @ b"
    using a h Cons by (simp add: list_all_iff dropWhile_append2)
  have "hd (rev core) = last core" using Cons by (simp add: hd_rev)
  then have 2: "dropWhile is_space (rev core) = rev core"
    using l by (simp add: dropWhile_eq_self_iff)
  have "dropWhile is_space (rev b @ rev core) = dropWhile is_space (rev core)"
    using b by (intro dropWhile_append2) (simp add: list_all_iff)
  then have 3: "dropWhile is_space (rev b @ rev core) = rev core"
    using 2 by simp
  show ?thesis by (simp add: strip_def 1 3)
qed

lemma lstrip_at_replicate:
  assumes "r = [] \<or> hd r \<noteq> 64"
  shows "lstrip (ustr ''@'') (replicate n 64 @ r) = r"
proof -
  have "dropWhile (\<lambda>c. c = 64) r = r" using assms by (cases r) auto
  then show ?thesis by (induction n) (simp_all add: lstrip_def ustr_def)
qed

text \<open>Every string is whitespace, a core without whitespace at its ends, whitespace; and
  every core is a run of \<^verbatim>\<open>@\<close> followed by a rest that does not begin with one.\<close>

lemma strip_decomposition:
  "\<exists>a b. s = a @ strip s @ b \<and> list_all is_space a \<and> list_all is_space b
     \<and> (strip s = [] \<or> (\<not> is_space (hd (strip s)) \<and> \<not> is_space (last (strip s))))"
proof -
  let ?a = "takeWhile is_space s"
  let ?d = "dropWhile is_space s"
  let ?b = "rev (takeWhile is_space (rev ?d))"
  have d: "?d = strip s @ ?b"
  proof -
    have "rev (dropWhile is_space (rev ?d)) @ rev (takeWhile is_space (rev ?d))
            = rev (takeWhile is_space (rev ?d) @ dropWhile is_space (rev ?d))"
      by (simp only: rev_append)
    also have "\<dots> = rev (rev ?d)" by (simp only: takeWhile_dropWhile_id)
    also have "\<dots> = ?d" by simp
    finally show ?thesis by (simp only: strip_def)
  qed
  have s: "s = ?a @ strip s @ ?b" using d by (metis takeWhile_dropWhile_id)
  have a: "list_all is_space ?a" by (auto simp: list_all_iff dest: set_takeWhileD)
  have b: "list_all is_space ?b" by (auto simp: list_all_iff dest: set_takeWhileD)
  have ends: "\<not> is_space (hd (strip s)) \<and> \<not> is_space (last (strip s))" if ne: "strip s \<noteq> []"
  proof -
    from ne d have "hd (strip s) = hd ?d" by (metis hd_append2)
    moreover have "?d \<noteq> []"
    proof
      assume "?d = []"
      with d have "strip s @ ?b = []" by (simp only:)
      with ne show False by simp
    qed
    then have "\<not> is_space (hd ?d)" by (simp add: hd_dropWhile)
    ultimately show ?thesis using strip_last [OF ne] by simp
  qed
  from s a b ends show ?thesis by blast
qed

lemma at_run_decomposition:
  "\<exists>n r. core = replicate n 64 @ r \<and> (r = [] \<or> hd r \<noteq> 64)"
proof (induction core)
  case Nil
  show ?case by simp
next
  case (Cons c cs)
  show ?case
  proof (cases "c = 64")
    case True
    from Cons obtain n r where "cs = replicate n 64 @ r" "r = [] \<or> hd r \<noteq> 64"
      by blast
    with True have "c # cs = replicate (Suc n) 64 @ r" by simp
    with \<open>r = [] \<or> hd r \<noteq> 64\<close> show ?thesis by blast
  next
    case False
    then have "c # cs = replicate 0 64 @ (c # cs) \<and> hd (c # cs) \<noteq> 64" by simp
    then show ?thesis by blast
  qed
qed

lemma company_string_decomposition:
  "\<exists>a b core n r. s = a @ core @ b \<and> list_all is_space a \<and> list_all is_space b
     \<and> core = replicate n 64 @ r
     \<and> (core = [] \<or> (\<not> is_space (hd core) \<and> \<not> is_space (last core)))
     \<and> (r = [] \<or> hd r \<noteq> 64)"
  using strip_decomposition [of s] at_run_decomposition [of "strip s"] by blast

lemma clean_acme: "clean_company_name U (JStr (ustr ''@Acme '')) = Inr (ustr ''ACME'')"
  by (simp add: ustr_def strip_def is_space_def lstrip_def upper_def upper_char_def
      ascii_upper_def)

text \<open>
  Claim C2, as the code has it. A string is a list of code points, \<^verbatim>\<open>@\<close> being 64. Every
  string splits into leading whitespace, a core without whitespace at either end, and
  trailing whitespace (\<open>company_string_decomposition\<close>), whitespace being Python's, Unicode
  spaces included. The normalizer drops the whitespace, drops every leading \<^verbatim>\<open>@\<close> of the
  core (any number \<open>n\<close> of them, not only one) and uppercases what remains, by whatever the
  interpreter's table is beyond ASCII; \<^verbatim>\<open>None\<close> and the empty string give the empty
  string, and \<^verbatim>\<open>"@Acme "\<close> gives \<^verbatim>\<open>"ACME"\<close>.
\<close>

theorem clean_company_name_normalizes:
  assumes "list_all is_space a" and "list_all is_space b"
    and "core = replicate n 64 @ r"
    and "core = [] \<or> (\<not> is_space (hd core) \<and> \<not> is_space (last core))"
    and "r = [] \<or> hd r \<noteq> 64"
  shows "clean_company_name U (JStr (a @ core @ b)) = Inr (upper U r)
       \<and> clean_company_name U JNull = Inr []
       \<and> clean_company_name U (JStr []) = Inr []
       \<and> clean_company_name U (JStr (ustr ''@Acme '')) = Inr (ustr ''ACME'')"
proof -
  have s: "strip (a @ core @ b) = core" using assms(1,2,4) by (rule strip_sandwich)
  have l: "lstrip (ustr ''@'') core = r" using assms(3,5) by (simp add: lstrip_at_replicate)
  have "clean_company_name U (JStr (a @ core @ b)) = Inr (upper U r)"
  proof (cases "a @ core @ b = []")
    case True
    then have "r = []" using assms(3) by simp
    then show ?thesis using True by (simp add: upper_def)
  next
    case False
    then show ?thesis using s l by simp
  qed
  then show ?thesis using clean_acme by simp
qed

text \<open>The witness has two \<^verbatim>\<open>@\<close>, a no-break space before and a blank and a U+2003 after
  the core, and an accented letter: \<^verbatim>\<open>"\xa0@@caf\xe9 \u2003"\<close> gives \<^verbatim>\<open>"CAF\xc9"\<close>.\<close>

theorem clean_company_name_normalizes_witness:
  "clean_company_name latin1_tables (JStr ([160, 64, 64] @ ustr ''caf'' @ [233, 32, 8195]))
     = Inr (ustr ''CAF'' @ [201])"
proof -
  have up: "upper latin1_tables (ustr ''caf'' @ [233]) = ustr ''CAF'' @ [201]"
    by (simp add: upper_def upper_char_def ascii_upper_def ustr_def latin1_tables_def
        latin1_upper_cp_def)
  have "clean_company_name latin1_tables
          (JStr ([160] @ (replicate 2 64 @ (ustr ''caf'' @ [233])) @ [32, 8195]))
        = Inr (upper latin1_tables (ustr ''caf'' @ [233]))"
    using clean_company_name_normalizes [of "[160]" "[32, 8195]"
        "replicate 2 64 @ (ustr ''caf'' @ [233])" 2 "ustr ''caf'' @ [233]" latin1_tables]
    by (simp add: is_space_def ustr_def)
  then show ?thesis by (simp add: up numeral_2_eq_2)
qed

text \<open>
  Claim C2 as stated fails: on \<^verbatim>\<open>"@@acme"\<close> the specification's normalizer strips one
  \<^verbatim>\<open>@\<close> and keeps the second, the code strips both.
\<close>

theorem clean_company_name_single_at_counterexample:
  "clean_company_name latin1_tables (JStr (ustr ''@@acme'')) = Inr (ustr ''ACME'') \<and>
   spec_normalize_company latin1_tables (Some (ustr ''@@acme'')) = ustr ''@ACME'' \<and>
   clean_company_name latin1_tables (JStr (ustr ''@@acme''))
     \<noteq> Inr (spec_normalize_company latin1_tables (Some (ustr ''@@acme'')))"
  by (simp add: ustr_def strip_def is_space_def lstrip_def upper_def upper_char_def
      ascii_upper_def spec_normalize_company_def)

text \<open>Upper case, character by character, under a table that is closed.\<close>

lemma is_space_ascii_upper: "is_space (ascii_upper c) = is_space c"
  by (auto simp: is_space_def ascii_upper_def)

lemma upper_append: "upper U (x @ y) = upper U x @ upper U y"
  by (simp add: upper_def)

lemma upper_char_closed:
  assumes "upper_table_closed U"
  shows "upper_char U c \<noteq> []"
    and "c \<noteq> 64 \<Longrightarrow> hd (upper_char U c) \<noteq> 64"
    and "\<not> is_space c \<Longrightarrow> \<not> is_space (last (upper_char U c))"
    and "upper U (upper_char U c) = upper_char U c"
proof -
  have table: "upper_cp U c \<noteq> [] \<and> hd (upper_cp U c) \<noteq> 64
        \<and> (\<not> is_space c \<longrightarrow> \<not> is_space (last (upper_cp U c)))
        \<and> upper U (upper_cp U c) = upper_cp U c" if "128 \<le> c"
    using assms that unfolding upper_table_closed_def by blast
  show "upper_char U c \<noteq> []"
    using table by (cases "c < 128") (simp_all add: upper_char_def)
  show "hd (upper_char U c) \<noteq> 64" if "c \<noteq> 64"
    using table that by (cases "c < 128") (auto simp: upper_char_def ascii_upper_def)
  show "\<not> is_space (last (upper_char U c))" if "\<not> is_space c"
    using table that by (cases "c < 128") (simp_all add: upper_char_def is_space_ascii_upper)
  show "upper U (upper_char U c) = upper_char U c"
  proof (cases "c < 128")
    case True
    then have "ascii_upper c < 128" by (auto simp: ascii_upper_def)
    with True show ?thesis
      by (simp add: upper_char_def upper_def) (auto simp: ascii_upper_def)
  next
    case False
    with table show ?thesis by (simp add: upper_char_def)
  qed
qed

lemma upper_idem:
  assumes "upper_table_closed U"
  shows "upper U (upper U s) = upper U s"
proof (induction s)
  case Nil
  show ?case by (simp add: upper_def)
next
  case (Cons c s)
  have "upper U (c # s) = upper_char U c @ upper U s" by (simp add: upper_def)
  then show ?case
    using Cons upper_char_closed(4) [OF assms, of c] by (simp add: upper_append)
qed

lemma upper_ends:
  assumes "upper_table_closed U" and "r \<noteq> []"
  shows "upper U r \<noteq> []"
    and "hd r \<noteq> 64 \<Longrightarrow> hd (upper U r) \<noteq> 64"
    and "\<not> is_space (last r) \<Longrightarrow> \<not> is_space (last (upper U r))"
proof -
  from assms(2) obtain c cs where r: "r = c # cs" by (cases r) auto
  have front: "upper U r = upper_char U c @ upper U cs" by (simp add: r upper_def)
  from assms(2) obtain bs d where r': "r = bs @ [d]" by (cases r rule: rev_cases) auto
  have rear: "upper U r = upper U bs @ upper_char U d"
    by (simp add: r' upper_append) (simp add: upper_def)
  show "upper U r \<noteq> []" using front upper_char_closed(1) [OF assms(1), of c] by simp
  show "hd (upper U r) \<noteq> 64" if "hd r \<noteq> 64"
    using front r that upper_char_closed(1,2) [OF assms(1), of c] by simp
  show "\<not> is_space (last (upper U r))" if "\<not> is_space (last r)"
    using rear r' that upper_char_closed(1,3) [OF assms(1), of d] by simp
qed

lemma clean_company_name_result_fixed:
  assumes U: "upper_table_closed U"
    and t: "t = upper U (lstrip (ustr ''@'') (strip s))"
    and hd: "t = [] \<or> \<not> is_space (hd t)"
  shows "clean_company_name U (JStr t) = Inr t"
proof (cases "t = []")
  case True
  then show ?thesis by simp
next
  case False
  let ?u = "lstrip (ustr ''@'') (strip s)"
  from False t have u: "?u \<noteq> []" by (auto simp: upper_def)
  then have sne: "strip s \<noteq> []" by (auto simp: lstrip_def)
  have "last ?u = last (strip s)" using u by (simp add: lstrip_def last_dropWhile)
  then have "\<not> is_space (last ?u)" using strip_last [OF sne] by simp
  then have lt: "\<not> is_space (last t)"
    unfolding t using U u by (intro upper_ends(3))
  have "hd ?u \<noteq> 64"
    using u hd_dropWhile [of "\<lambda>c. c \<in> set (ustr ''@'')" "strip s"]
    by (simp add: lstrip_def ustr_def)
  then have at: "hd t \<noteq> 64"
    unfolding t using U u by (intro upper_ends(2))
  have 1: "strip t = t" using hd lt False by (intro strip_fixed) simp
  have 2: "lstrip (ustr ''@'') t = t"
    using at False by (cases t) (auto simp: lstrip_def ustr_def)
  have 3: "upper U t = t" using t U by (simp add: upper_idem)
  show ?thesis using False by (simp add: 1 2 3)
qed

text \<open>
  Claim C5, as the code has it: for every company value that the normalizer accepts
  (\<^verbatim>\<open>None\<close>, the empty string, any string), normalizing the result again changes nothing,
  provided the result does not begin with a whitespace character, Unicode spaces included.
  The upper-case table is any table that is closed as Python's is.
\<close>

theorem clean_company_name_idempotent_unless_leading_space:
  assumes "upper_table_closed U"
    and "clean_company_name U company = Inr t"
    and "t = [] \<or> \<not> is_space (hd t)"
  shows "clean_company_name U (JStr t) = Inr t"
proof (cases "truthy company")
  case False
  with assms(2) have "t = []" by simp
  then show ?thesis by simp
next
  case True
  with assms(2) obtain s where "company = JStr s" by (cases company) auto
  with True assms(2) have "t = upper U (lstrip (ustr ''@'') (strip s))" by auto
  with assms(1) show ?thesis using assms(3) by (rule clean_company_name_result_fixed)
qed

lemma not_space_between: "160 < c \<Longrightarrow> c < 5760 \<Longrightarrow> \<not> is_space c"
  by (simp add: is_space_def)

lemma latin1_tables_closed: "upper_table_closed latin1_tables"
  unfolding upper_table_closed_def
proof (intro allI impI)
  fix c :: nat
  assume c: "128 \<le> c"
  have cp: "upper_cp latin1_tables c = latin1_upper_cp c" by (simp add: latin1_tables_def)
  have "latin1_upper_cp c \<noteq> []" "hd (latin1_upper_cp c) \<noteq> 64"
    using c by (auto simp: latin1_upper_cp_def)
  moreover have "\<not> is_space (last (latin1_upper_cp c))" if ns: "\<not> is_space c"
  proof -
    consider "c = 181" | "c = 223" | "c = 255" | "224 \<le> c \<and> c \<le> 254 \<and> c \<noteq> 247"
      | "c \<noteq> 181 \<and> c \<noteq> 223 \<and> c \<noteq> 255 \<and> \<not> (224 \<le> c \<and> c \<le> 254 \<and> c \<noteq> 247)"
      by blast
    then show ?thesis
    proof cases
      case 1
      then show ?thesis by (simp add: latin1_upper_cp_def not_space_between)
    next
      case 2
      then show ?thesis by (simp add: latin1_upper_cp_def is_space_def)
    next
      case 3
      then show ?thesis by (simp add: latin1_upper_cp_def not_space_between)
    next
      case 4
      then have "latin1_upper_cp c = [c - 32]" by (simp add: latin1_upper_cp_def)
      moreover from 4 have "160 < c - 32" "c - 32 < 5760" by linarith+
      ultimately show ?thesis by (simp add: not_space_between)
    next
      case 5
      then have "latin1_upper_cp c = [c]" by (auto simp: latin1_upper_cp_def)
      with ns show ?thesis by simp
    qed
  qed
  moreover have "upper latin1_tables (latin1_upper_cp c) = latin1_upper_cp c"
    using c
    by (auto simp: latin1_upper_cp_def upper_def upper_char_def ascii_upper_def
        latin1_tables_def)
  ultimately show "upper_cp latin1_tables c \<noteq> [] \<and> hd (upper_cp latin1_tables c) \<noteq> 64
        \<and> (\<not> is_space c \<longrightarrow> \<not> is_space (last (upper_cp latin1_tables c)))
        \<and> upper latin1_tables (upper_cp latin1_tables c) = upper_cp latin1_tables c"
    by (simp add: cp)
qed

text \<open>The witness: \<^verbatim>\<open>"\u2003@Caf\xe9\xa0"\<close> gives \<^verbatim>\<open>"CAF\xc9"\<close>, and that gives itself.\<close>

theorem clean_company_name_idempotent_witness:
  "clean_company_name latin1_tables (JStr ([8195, 64] @ ustr ''Caf'' @ [233, 160]))
     = Inr (ustr ''CAF'' @ [201])
   \<and> clean_company_name latin1_tables (JStr (ustr ''CAF'' @ [201])) = Inr (ustr ''CAF'' @ [201])"
proof -
  have 1: "clean_company_name latin1_tables (JStr ([8195, 64] @ ustr ''Caf'' @ [233, 160]))
     = Inr (ustr ''CAF'' @ [201])"
    by (simp add: ustr_def strip_def is_space_def lstrip_def upper_def upper_char_def
        ascii_upper_def latin1_tables_def latin1_upper_cp_def)
  have 2: "ustr ''CAF'' @ [201] = [] \<or> \<not> is_space (hd (ustr ''CAF'' @ [201]))"
    by (simp add: is_space_def ustr_def)
  show ?thesis
    using 1 clean_company_name_idempotent_unless_leading_space [OF latin1_tables_closed 1 2]
    by simp
qed

text \<open>
  Claim C5 as stated fails: \<^verbatim>\<open>"@ acme"\<close> is normalized to \<^verbatim>\<open>" ACME"\<close>, whose leading
  blank the outer \<^verbatim>\<open>strip\<close> no longer sees; a second pass removes it. It is the same with
  a no-break space: \<^verbatim>\<open>"@\xa0acme"\<close> gives \<^verbatim>\<open>"\xa0ACME"\<close>, and that gives \<^verbatim>\<open>"ACME"\<close>.
\<close>

theorem clean_company_name_not_idempotent_counterexample:
  "clean_company_name latin1_tables (JStr (ustr ''@ acme'')) = Inr (ustr '' ACME'') \<and>
   clean_company_name latin1_tables (JStr (ustr '' ACME'')) = Inr (ustr ''ACME'') \<and>
   clean_company_name latin1_tables (JStr (ustr '' ACME''))
     \<noteq> clean_company_name latin1_tables (JStr (ustr ''@ acme'')) \<and>
   clean_company_name latin1_tables (JStr ([64, 160] @ ustr ''acme''))
     = Inr ([160] @ ustr ''ACME'') \<and>
   clean_company_name latin1_tables (JStr ([160] @ ustr ''ACME'')) = Inr (ustr ''ACME'')"
  by (simp add: ustr_def strip_def is_space_def lstrip_def upper_def upper_char_def
      ascii_upper_def latin1_tables_def latin1_upper_cp_def)

section \<open>The HTTP client wrapper\<close>

lemma make_request_ok:
  assumes "respond e (length (sent w)) (request_of self u ps) = Some resp"
    and "status_code resp = 200"
  shows "make_request (Suc k) self e w u ps =
           Some (Inr (json_body resp), w\<lparr> sent := sent w @ [request_of self u ps] \<rparr>)"
  using assms by (simp add: Let_def)

lemma make_request_http_error:
  assumes "respond e (length (sent w)) (request_of self u ps) = Some resp"
    and "400 \<le> status_code resp" and "status_code resp < 600" and "status_code resp \<noteq> 403"
  shows "make_request (Suc k) self e w u ps =
           Some (Inl (HTTPError (status_code resp)),
                 w\<lparr> sent := sent w @ [request_of self u ps] \<rparr>)"
  using assms by (auto simp: Let_def raises_for_status_def)

text \<open>After \<open>m\<close> rate-limit answers the call is where it began, \<open>m\<close> copies of the same
  request and \<open>m\<close> sleeps later.\<close>

lemma make_request_rate_limited:
  assumes "\<And>i. i < m \<Longrightarrow> \<exists>resp. respond e (length (sent w) + i) (request_of self u ps) = Some resp
              \<and> status_code resp = 403 \<and> reset_time resp = Inr (t i)"
  shows "make_request (m + k) self e w u ps =
           make_request k self e
             (w\<lparr> sent := sent w @ replicate m (request_of self u ps),
                 slept := slept w @
                   map (\<lambda>i. max (real_of_int (t i) - clock e (length (sent w) + i)) 0 + 1) [0..<m] \<rparr>)
             u ps"
  using assms
proof (induction m arbitrary: w t)
  case 0
  then show ?case by simp
next
  case (Suc m)
  let ?r = "request_of self u ps"
  let ?s0 = "max (real_of_int (t 0) - clock e (length (sent w))) 0 + 1"
  let ?w1 = "w\<lparr> sent := sent w @ [?r], slept := slept w @ [?s0] \<rparr>"
  from Suc.prems [of 0] obtain resp where
    resp: "respond e (length (sent w)) ?r = Some resp" "status_code resp = 403"
      "reset_time resp = Inr (t 0)"
    by auto
  have step: "make_request (Suc m + k) self e w u ps = make_request (m + k) self e ?w1 u ps"
    using resp by (simp add: Let_def)
  have "\<And>i. i < m \<Longrightarrow> \<exists>resp. respond e (length (sent ?w1) + i) ?r = Some resp
          \<and> status_code resp = 403 \<and> reset_time resp = Inr (t (Suc i))"
    using Suc.prems [of "Suc i" for i] by simp
  from Suc.IH [of ?w1 "\<lambda>i. t (Suc i)", OF this]
  have "make_request (m + k) self e ?w1 u ps =
          make_request k self e
            (?w1\<lparr> sent := sent ?w1 @ replicate m ?r,
                  slept := slept ?w1 @
                    map (\<lambda>i. max (real_of_int (t (Suc i)) - clock e (length (sent ?w1) + i)) 0 + 1)
                      [0..<m] \<rparr>) u ps" .
  moreover have "map (\<lambda>i. max (real_of_int (t i) - clock e (length (sent w) + i)) 0 + 1) [0..<Suc m]
      = ?s0 # map (\<lambda>i. max (real_of_int (t (Suc i)) - clock e (length (sent ?w1) + i)) 0 + 1) [0..<m]"
  proof -
    have "[0..<Suc m] = 0 # map Suc [0..<m]"
      by (simp add: upt_conv_Cons map_Suc_upt del: upt_Suc)
    then show ?thesis by (simp add: comp_def del: upt_Suc)
  qed
  ultimately show ?case
    using step by (simp add: replicate_append_same del: upt_Suc)
qed

text \<open>A call that returns a value has just been answered with status 200 and that value;
  all it sent is copies of its request.\<close>

lemma make_request_sent:
  "make_request k self e w u ps = Some (res, w') \<Longrightarrow>
   \<exists>m. sent w' = sent w @ replicate (Suc m) (request_of self u ps)"
proof (induction k arbitrary: w)
  case 0
  then show ?case by simp
next
  case (Suc k)
  let ?r = "request_of self u ps"
  let ?w1 = "w\<lparr> sent := sent w @ [?r] \<rparr>"
  have base: "sent ?w1 = sent w @ replicate (Suc 0) ?r"
    by simp
  have rec: "\<exists>m. sent w' = sent w @ replicate (Suc m) ?r"
    if "make_request k self e w2 u ps = Some (res, w')" and "sent w2 = sent w @ [?r]" for w2
  proof -
    from Suc.IH [OF that(1)] obtain m where
      "sent w' = sent w2 @ replicate (Suc m) ?r"
      by blast
    with that(2) have "sent w' = sent w @ replicate (Suc (Suc m)) ?r"
      by simp
    then show ?thesis by blast
  qed
  show ?case
  proof (cases "respond e (length (sent w)) ?r")
    case None
    with Suc.prems have "w' = ?w1" by (simp add: Let_def)
    with base show ?thesis by blast
  next
    case (Some resp)
    show ?thesis
    proof (cases "status_code resp = 200")
      case True
      with Some Suc.prems have "w' = ?w1" by (simp add: Let_def)
      with base show ?thesis by blast
    next
      case n200: False
      show ?thesis
      proof (cases "status_code resp = 403")
        case True
        show ?thesis
        proof (cases "reset_time resp")
          case (Inl err)
          with Some n200 True Suc.prems have "w' = ?w1" by (simp add: Let_def)
          with base show ?thesis by blast
        next
          case (Inr t)
          with Some n200 True Suc.prems show ?thesis
            by (intro rec [of "?w1\<lparr> slept := slept ?w1 @
                  [max (real_of_int t - clock e (length (sent w))) 0 + 1] \<rparr>"])
               (simp_all add: Let_def)
        qed
      next
        case n403: False
        show ?thesis
        proof (cases "raises_for_status resp")
          case True
          with Some n200 n403 Suc.prems have "w' = ?w1" by (simp add: Let_def)
          with base show ?thesis by blast
        next
          case False
          with Some n200 n403 Suc.prems show ?thesis
            by (intro rec [of ?w1]) (simp_all add: Let_def)
        qed
      qed
    qed
  qed
qed

lemma make_request_Inr_last:
  "make_request k self e w u ps = Some (Inr j, w') \<Longrightarrow>
   \<exists>resp. respond e (length (sent w') - 1) (request_of self u ps) = Some resp
     \<and> status_code resp = 200 \<and> json_body resp = j"
proof (induction k arbitrary: w)
  case 0
  then show ?case by simp
next
  case (Suc k)
  let ?r = "request_of self u ps"
  show ?case
  proof (cases "respond e (length (sent w)) ?r")
    case None
    with Suc.prems show ?thesis by (simp add: Let_def)
  next
    case (Some resp)
    show ?thesis
    proof (cases "status_code resp = 200")
      case True
      with Some Suc.prems show ?thesis by (auto simp: Let_def)
    next
      case False
      with Some Suc.prems Suc.IH show ?thesis
        by (auto simp: Let_def split: if_splits sum.splits)
    qed
  qed
qed

text \<open>
  Claim C4, as the code has it. Let the upstream answer the request with status 403 and a
  readable reset header \<open>m\<close> times, for any \<open>m\<close>, and then with \<open>resp\<close>. The call sleeps
  \<open>max (reset - now) 0 + 1\<close> after each of the \<open>m\<close> refusals, whatever caused them, and sends
  the same request again; the caller sees only the outcome of \<open>resp\<close>: its parsed body when
  its status is 200, an \<open>HTTPError\<close> with its status when that is between 400 and 599 and
  not 403. And whenever the call returns a value, the answer it returned from had status 200
  and that value as its body.
\<close>

theorem make_request_behaviour:
  assumes limited: "\<forall>i<m. \<exists>resp. respond e (length (sent w) + i) (request_of self u ps) = Some resp
              \<and> status_code resp = 403 \<and> reset_time resp = Inr (t i)"
    and final: "respond e (length (sent w) + m) (request_of self u ps) = Some resp"
    and fuel: "m < k"
    and w': "w' = w\<lparr> sent := sent w @ replicate (Suc m) (request_of self u ps),
                     slept := slept w @
                       map (\<lambda>i. max (real_of_int (t i) - clock e (length (sent w) + i)) 0 + 1)
                         [0..<m] \<rparr>"
  shows "(status_code resp = 200 \<longrightarrow>
            make_request k self e w u ps = Some (Inr (json_body resp), w'))
       \<and> (400 \<le> status_code resp \<and> status_code resp < 600 \<and> status_code resp \<noteq> 403 \<longrightarrow>
            make_request k self e w u ps = Some (Inl (HTTPError (status_code resp)), w'))
       \<and> (\<forall>j w''. make_request k self e w u ps = Some (Inr j, w'') \<longrightarrow>
            (\<exists>last. respond e (length (sent w'') - 1) (request_of self u ps) = Some last
               \<and> status_code last = 200 \<and> json_body last = j))"
proof -
  let ?r = "request_of self u ps"
  let ?wm = "w\<lparr> sent := sent w @ replicate m ?r,
                slept := slept w @
                  map (\<lambda>i. max (real_of_int (t i) - clock e (length (sent w) + i)) 0 + 1) [0..<m] \<rparr>"
  from fuel obtain k' where k: "k = m + Suc k'"
    by (metis less_imp_Suc_add add_Suc_right)
  have retry: "make_request k self e w u ps = make_request (Suc k') self e ?wm u ps"
    unfolding k using limited by (intro make_request_rate_limited) simp
  have at: "respond e (length (sent ?wm)) ?r = Some resp" using final by simp
  have wm: "?wm\<lparr> sent := sent ?wm @ [?r] \<rparr> = w'"
    unfolding w' by (simp add: replicate_append_same)
  have "status_code resp = 200 \<longrightarrow>
          make_request k self e w u ps = Some (Inr (json_body resp), w')"
    using make_request_ok [OF at, of k'] retry wm by simp
  moreover have "400 \<le> status_code resp \<and> status_code resp < 600 \<and> status_code resp \<noteq> 403 \<longrightarrow>
          make_request k self e w u ps = Some (Inl (HTTPError (status_code resp)), w')"
    using make_request_http_error [OF at, of k'] retry wm by simp
  ultimately show ?thesis using make_request_Inr_last by blast
qed

theorem make_request_behaviour_witness:
  "make_request 2 (init_scraper (ustr ''t'')) (retry_env rate_limited_response) world0 octocat_url None =
     Some (Inr sample_user,
           \<lparr> sent = [request_of (init_scraper (ustr ''t'')) octocat_url None,
                     request_of (init_scraper (ustr ''t'')) octocat_url None],
             slept = [6] \<rparr>)"
proof -
  have rt: "reset_time rate_limited_response = Inr 105"
    by code_simp
  have "\<forall>i<1. \<exists>resp. respond (retry_env rate_limited_response) (length (sent world0) + i)
            (request_of (init_scraper (ustr ''t'')) octocat_url None) = Some resp
          \<and> status_code resp = 403 \<and> reset_time resp = Inr ((\<lambda>i. 105) i)"
    using rt by (simp add: retry_env_def world0_def rate_limited_response_def)
  moreover have "respond (retry_env rate_limited_response) (length (sent world0) + 1)
      (request_of (init_scraper (ustr ''t'')) octocat_url None) = Some (ok_response sample_user)"
    by (simp add: retry_env_def)
  moreover have "(1::nat) < 2" by simp
  ultimately show ?thesis
    using make_request_behaviour [of 1 "retry_env rate_limited_response" world0
        "init_scraper (ustr ''t'')" octocat_url None "\<lambda>i. 105" "ok_response sample_user" 2]
    by (simp add: world0_def ok_response_def retry_env_def numeral_2_eq_2)
qed

text \<open>
  Claim C4 as stated fails twice. A 403 that is not a rate-limit refusal (quota remains) is
  slept on and retried like any other 403, not raised; and a status below 400 other than 200,
  here 204, is not raised either, since \<^verbatim>\<open>raise_for_status\<close> returns for it: the loop asks
  again at once. In both runs the caller gets the body of the second answer.
\<close>

theorem make_request_other_status_counterexample:
  "make_request 2 (init_scraper (ustr ''t'')) (retry_env forbidden_response) world0 octocat_url None =
     Some (Inr sample_user,
           \<lparr> sent = [request_of (init_scraper (ustr ''t'')) octocat_url None,
                     request_of (init_scraper (ustr ''t'')) octocat_url None],
             slept = [6] \<rparr>)
   \<and> make_request 2 (init_scraper (ustr ''t'')) (retry_env no_content_response) world0 octocat_url None =
     Some (Inr sample_user,
           \<lparr> sent = [request_of (init_scraper (ustr ''t'')) octocat_url None,
                     request_of (init_scraper (ustr ''t'')) octocat_url None],
             slept = [] \<rparr>)"
proof -
  have rt: "reset_time forbidden_response = Inr 105"
    by code_simp
  have 1: "status_code forbidden_response = 403" by (simp add: forbidden_response_def)
  have 2: "status_code no_content_response = 204 \<and> \<not> raises_for_status no_content_response"
    by (simp add: no_content_response_def raises_for_status_def)
  show ?thesis
    using rt 1 2 by (simp add: numeral_2_eq_2 retry_env_def world0_def ok_response_def Let_def)
qed

section \<open>Normalizing a profile\<close>

text \<open>
  Claim C3, as the code has it. A raw user record that has the keys the dictionary literal
  subscripts (all but \<^verbatim>\<open>company\<close>, which is read with \<^verbatim>\<open>get\<close>), and whose company is
  absent, false or a string, is normalized without an exception; each of name, location,
  email, hireable and bio that is null becomes the empty string, and so does a company that
  is absent or null.
\<close>

theorem clean_user_never_fails_on_complete_record:
  assumes keys: "\<forall>f \<in> set [''login'', ''name'', ''location'', ''email'', ''hireable'', ''bio'',
                  ''public_repos'', ''followers'', ''following'', ''created_at''].
             map_of kvs f \<noteq> None"
    and company: "\<forall>v. map_of kvs ''company'' = Some v \<longrightarrow> \<not> truthy v \<or> (\<exists>s. v = JStr s)"
  shows "\<exists>row. clean_user U (JObj kvs) = Inr row
           \<and> (\<forall>f \<in> set [''name'', ''location'', ''email'', ''hireable'', ''bio''].
                 map_of kvs f = Some JNull \<longrightarrow> map_of row f = Some (JStr []))
           \<and> (map_of kvs ''company'' = None \<or> map_of kvs ''company'' = Some JNull
                 \<longrightarrow> map_of row ''company'' = Some (JStr []))"
proof -
  from keys obtain login name location email hireable bio public_repos followers following
      created_at
    where k: "map_of kvs ''login'' = Some login" "map_of kvs ''name'' = Some name"
      "map_of kvs ''location'' = Some location" "map_of kvs ''email'' = Some email"
      "map_of kvs ''hireable'' = Some hireable" "map_of kvs ''bio'' = Some bio"
      "map_of kvs ''public_repos'' = Some public_repos"
      "map_of kvs ''followers'' = Some followers"
      "map_of kvs ''following'' = Some following"
      "map_of kvs ''created_at'' = Some created_at"
    by auto
  have "\<exists>c. bindE (dict_get (JObj kvs) ''company'') (clean_company_name U) = Inr c
           \<and> (map_of kvs ''company'' = None \<or> map_of kvs ''company'' = Some JNull \<longrightarrow> c = [])"
  proof (cases "map_of kvs ''company''")
    case None
    then show ?thesis by simp
  next
    case (Some v)
    with company have "\<not> truthy v \<or> (\<exists>s. v = JStr s)" by simp
    then have "\<exists>c. clean_company_name U v = Inr c \<and> (v = JNull \<longrightarrow> c = [])"
      by (cases "truthy v") auto
    then show ?thesis using Some by simp
  qed
  then obtain c where c: "bindE (dict_get (JObj kvs) ''company'') (clean_company_name U) = Inr c"
    and c0: "map_of kvs ''company'' = None \<or> map_of kvs ''company'' = Some JNull \<longrightarrow> c = []"
    by blast
  show ?thesis
    unfolding clean_user_def using k c c0 by (simp add: or_empty_def)
qed

theorem clean_user_never_fails_witness:
  "(case clean_user latin1_tables sample_user of
      Inr row \<Rightarrow> map (map_of row) [''name'', ''company'', ''email'', ''hireable'', ''bio'']
                  = [Some (JStr []), Some (JStr []), Some (JStr []), Some (JStr []),
                     Some (JStr [])]
    | Inl err \<Rightarrow> False)"
  using clean_user_never_fails_on_complete_record [of sample_user_fields latin1_tables]
  by (auto simp: sample_user_def sample_user_fields_def)

text \<open>
  Claim C3 as stated fails: a record with the login, the company and the four counters but
  without the key \<^verbatim>\<open>name\<close> raises a \<^verbatim>\<open>KeyError\<close>, since the optional fields other than
  the company are subscripted, not read with \<^verbatim>\<open>get\<close>.
\<close>

theorem clean_user_absent_field_counterexample:
  "clean_user latin1_tables
     (JObj [(''login'', JStr (ustr ''octocat'')), (''company'', JStr (ustr ''@github'')),
                     (''public_repos'', JInt 8), (''followers'', JInt 9000),
                     (''following'', JInt 9), (''created_at'', JStr (ustr ''2011-01-25T18:44:36Z''))])
     = Inl (KeyError ''name'')"
  by (simp add: clean_user_def)

section \<open>The repositories of a user: whose they are\<close>

lemma clean_repo_login:
  "clean_repo U username repo = Inr repo_data \<Longrightarrow> map_of repo_data ''login'' = Some username"
  unfolding clean_repo_def bindE_Inr by (elim exE conjE) auto

lemma append_repos_login:
  "append_repos U username rs repos = Inr repos' \<Longrightarrow>
   \<forall>r \<in> set repos. map_of r ''login'' = Some username \<Longrightarrow>
   \<forall>r \<in> set repos'. map_of r ''login'' = Some username"
proof (induction rs arbitrary: repos)
  case Nil
  then show ?case by simp
next
  case (Cons repo rest)
  from Cons.prems(1) obtain d where d: "clean_repo U username repo = Inr d"
    and rest: "append_repos U username rest (repos @ [d]) = Inr repos'"
    by (auto simp: bindE_Inr)
  have "\<forall>r \<in> set (repos @ [d]). map_of r ''login'' = Some username"
    using Cons.prems(2) clean_repo_login [OF d] by auto
  with rest show ?case by (rule Cons.IH)
qed

text \<open>What a normal return of one round of the page loop tells.\<close>

lemma repo_pages_Suc_Inr:
  assumes "repo_pages (Suc k) self e w username max_repos page repos = Some (Inr repos', w')"
  shows "(\<not> int (length repos) < max_repos \<and> repos' = repos \<and> w' = w) \<or>
         (int (length repos) < max_repos \<and>
          (\<exists>response w1.
             make_request k self e w (repos_url (tables e) self username) (Some (repo_params page))
               = Some (Inr response, w1) \<and>
             ((\<not> truthy response \<and> repos' = repos \<and> w' = w1) \<or>
              (\<exists>rs r1. response = JList rs \<and> rs \<noteq> [] \<and>
                 append_repos (tables e) username rs repos = Inr r1 \<and>
                 ((length rs < 100 \<and> repos' = r1 \<and> w' = w1) \<or>
                  (\<not> length rs < 100 \<and>
                   repo_pages k self e w1 username max_repos (page + 1) r1
                     = Some (Inr repos', w')))))))"
proof (cases "int (length repos) < max_repos")
  case False
  with assms show ?thesis by simp
next
  case True
  show ?thesis
  proof (cases "make_request k self e w (repos_url (tables e) self username) (Some (repo_params page))")
    case None
    with assms True show ?thesis by simp
  next
    case (Some a)
    obtain res w1 where a: "a = (res, w1)" by (cases a)
    show ?thesis
    proof (cases res)
      case (Inl err)
      with assms True Some a show ?thesis by simp
    next
      case (Inr response)
      show ?thesis
      proof (cases "truthy response")
        case False
        with assms True Some a Inr show ?thesis by simp
      next
        case T: True
        with assms True Some a Inr obtain rs where rs: "response = JList rs"
          by (cases response) simp_all
        with T have ne: "rs \<noteq> []" by simp
        show ?thesis
        proof (cases "append_repos (tables e) username rs repos")
          case (Inl err)
          with assms True Some a Inr rs ne show ?thesis by simp
        next
          case r1: (Inr r1)
          with assms True Some a Inr rs ne show ?thesis
            by (cases "length rs < 100") simp_all
        qed
      qed
    qed
  qed
qed

lemma repo_pages_login:
  "repo_pages k self e w username max_repos page repos = Some (Inr repos', w') \<Longrightarrow>
   \<forall>r \<in> set repos. map_of r ''login'' = Some username \<Longrightarrow>
   \<forall>r \<in> set repos'. map_of r ''login'' = Some username"
proof (induction k arbitrary: w page repos)
  case 0
  then show ?case by simp
next
  case (Suc k)
  from repo_pages_Suc_Inr [OF Suc.prems(1)] show ?case
    using Suc.IH Suc.prems(2) append_repos_login by blast
qed

lemma get_user_repositories_Inr:
  assumes "get_user_repositories k self e w username max_repos = Some (Inr repos, w')"
  shows "\<exists>all_repos. repo_pages k self e w username max_repos 1 [] = Some (Inr all_repos, w')
           \<and> repos = slice_to all_repos max_repos"
  using assms
  by (auto simp: get_user_repositories_def split: option.splits sum.splits prod.splits)

text \<open>
  Claim C10: every record that \<^verbatim>\<open>get_user_repositories(username, max_repos)\<close> returns has
  the \<^verbatim>\<open>username\<close> argument itself under the key \<^verbatim>\<open>login\<close>, whatever the raw
  repository records say about their owner.
\<close>

theorem get_user_repositories_login:
  assumes "get_user_repositories k self e w username max_repos = Some (Inr repos, w')"
  shows "\<forall>r \<in> set repos. map_of r ''login'' = Some username"
proof -
  from get_user_repositories_Inr [OF assms] obtain all_repos where
    p: "repo_pages k self e w username max_repos 1 [] = Some (Inr all_repos, w')"
    and r: "repos = slice_to all_repos max_repos"
    by blast
  have "\<forall>r \<in> set all_repos. map_of r ''login'' = Some username"
    using p by (rule repo_pages_login) simp
  moreover have "set repos \<subseteq> set all_repos"
    unfolding r slice_to_def by (auto dest: in_set_takeD)
  ultimately show ?thesis by blast
qed

theorem get_user_repositories_login_witness:
  "(case get_user_repositories 2 (init_scraper (ustr ''t'')) two_repos_env world0 (JStr (ustr ''mojombo'')) 500 of
      Some (Inr repos, w') \<Rightarrow>
        map (\<lambda>r. map_of r ''login'') repos = [Some (JStr (ustr ''mojombo'')), Some (JStr (ustr ''mojombo''))]
    | _ \<Rightarrow> False)"
proof -
  have "\<exists>repos w'. get_user_repositories 2 (init_scraper (ustr ''t'')) two_repos_env world0
                     (JStr (ustr ''mojombo'')) 500 = Some (Inr repos, w') \<and> length repos = 2"
    by (simp add: get_user_repositories_def numeral_2_eq_2 two_repos_env_def ok_response_def
        world0_def sample_repo_def clean_repo_def repos_url_def repo_params_def
        init_scraper_def slice_to_def)
  then obtain repos w' where
    r: "get_user_repositories 2 (init_scraper (ustr ''t'')) two_repos_env world0 (JStr (ustr ''mojombo'')) 500
          = Some (Inr repos, w')" and l: "length repos = 2"
    by blast
  from l obtain a b where ab: "repos = [a, b]"
    by (cases repos; cases "tl repos") auto
  from get_user_repositories_login [OF r] ab show ?thesis
    by (simp add: r)
qed

section \<open>The repositories of a user: how many, and which\<close>

lemma append_repos_rows:
  "map (clean_repo U username) rs = map Inr rows \<Longrightarrow>
   append_repos U username rs repos = Inr (repos @ rows)"
proof (induction rs arbitrary: repos rows)
  case Nil
  then show ?case by simp
next
  case (Cons r rs)
  then obtain row rows' where rows: "rows = row # rows'"
    and r: "clean_repo U username r = Inr row"
    and rs: "map (clean_repo U username) rs = map Inr rows'"
    by (cases rows) auto
  from Cons.IH [OF rs, of "repos @ [row]"] r rows show ?case by simp
qed

lemma slice_to_take:
  "0 \<le> n \<Longrightarrow> slice_to xs n = take (nat n) xs"
  by (simp add: slice_to_def)

text \<open>The request that the code builds for a page is the request for that page of the
  user's repositories by push time, the latest first, 100 to a page.\<close>

lemma listing_request:
  "request_of (init_scraper token) (repos_url U (init_scraper token) (JStr name))
     (Some (repo_params (int q + 1)))
   = pushed_listing_request token name (Suc q)"
  by (simp add: request_of_def init_scraper_def repos_url_def repo_params_def
      pushed_listing_request_def ustr_def add.commute)

text \<open>One round of the page loop on a page that is a list.\<close>

lemma repo_pages_empty_page:
  assumes "int (length repos) < max_repos"
    and "make_request k self e w (repos_url (tables e) self username) (Some (repo_params page))
           = Some (Inr (JList []), w1)"
  shows "repo_pages (Suc k) self e w username max_repos page repos = Some (Inr repos, w1)"
  using assms by simp

lemma repo_pages_page:
  assumes "int (length repos) < max_repos"
    and "make_request k self e w (repos_url (tables e) self username) (Some (repo_params page))
           = Some (Inr (JList rs), w1)"
    and "rs \<noteq> []"
    and "append_repos (tables e) username rs repos = Inr repos'"
  shows "repo_pages (Suc k) self e w username max_repos page repos =
           (if length rs < 100 then Some (Inr repos', w1)
            else repo_pages k self e w1 username max_repos (page + 1) repos')"
  using assms by simp

text \<open>How many pages are asked for: one for each \<open>q\<close> from 0 with \<open>100 * q < max_repos\<close>
  that all the pages before it were full.\<close>

lemma pages_done:
  assumes "\<not> int (100 * q) < max_repos" and "q \<le> nat ((max_repos + 99) div 100)"
    and "100 * q \<le> (l::nat)"
  shows "min (l div 100 + 1) (nat ((max_repos + 99) div 100)) = q"
proof -
  from assms(1) have "(max_repos + 99) div 100 \<le> int q" by simp
  with assms(2) have "nat ((max_repos + 99) div 100) = q" by simp
  moreover from assms(3) have "q \<le> l div 100" by simp
  ultimately show ?thesis by simp
qed

lemma pages_last:
  assumes "int (100 * q) < max_repos" and "100 * q \<le> (l::nat)" and "l < 100 * Suc q"
  shows "min (l div 100 + 1) (nat ((max_repos + 99) div 100)) = Suc q"
proof -
  from assms(1) have "int q + 1 \<le> (max_repos + 99) div 100" by simp
  then have "Suc q \<le> nat ((max_repos + 99) div 100)" by simp
  moreover from assms(2,3) have "l div 100 = q" by simp
  ultimately show ?thesis by simp
qed

lemma pages_more:
  assumes "int (100 * q) < max_repos" and "100 * Suc q \<le> (l::nat)"
  shows "Suc q \<le> nat ((max_repos + 99) div 100)"
    and "Suc q \<le> min (l div 100 + 1) (nat ((max_repos + 99) div 100))"
proof -
  from assms(1) have "int q + 1 \<le> (max_repos + 99) div 100" by simp
  then show a: "Suc q \<le> nat ((max_repos + 99) div 100)" by simp
  from assms(2) have "Suc q \<le> l div 100" by simp
  with a show "Suc q \<le> min (l div 100 + 1) (nat ((max_repos + 99) div 100))" by simp
qed

text \<open>
  The page loop against an upstream that serves \<open>listing\<close> in pages of 100, entered at the
  page after \<open>q\<close> full pages with the rows of those pages: what it returns, and what it has
  asked for when it returns.
\<close>

lemma repo_pages_listing:
  fixes self username e listing max_repos
  defines "req \<equiv> \<lambda>q. request_of self (repos_url (tables e) self username)
                        (Some (repo_params (int q + 1)))"
  defines "P \<equiv> min (length listing div 100 + 1) (nat ((max_repos + 99) div 100))"
  assumes served: "\<And>n q. \<exists>resp. respond e n (req q) = Some resp
                \<and> status_code resp = 200
                \<and> json_body resp = JList (take 100 (drop (100 * q) listing))"
    and rows: "map (clean_repo (tables e) username) listing = map Inr rows"
  shows "100 * q \<le> length listing \<Longrightarrow> q \<le> nat ((max_repos + 99) div 100) \<Longrightarrow>
         (length listing - 100 * q) div 100 + 2 \<le> k \<Longrightarrow>
         \<exists>R. repo_pages k self e w username max_repos (int q + 1) (take (100 * q) rows)
                  = Some (Inr R, w\<lparr> sent := sent w @ map req [q ..< P] \<rparr>)
               \<and> slice_to R max_repos = take (nat max_repos) rows"
proof (induction k arbitrary: q w)
  case 0
  then show ?case by simp
next
  case (Suc k)
  define repos where "repos = take (100 * q) rows"
  define page where "page = take 100 (drop (100 * q) listing)"
  define page_rows where "page_rows = take 100 (drop (100 * q) rows)"
  define w1 where "w1 = w\<lparr> sent := sent w @ [req q] \<rparr>"
  have len: "length rows = length listing"
    using arg_cong [OF rows, of length] by simp
  have lrepos: "length repos = 100 * q" using Suc.prems(1) len by (simp add: repos_def)
  have lpage: "length page = min 100 (length listing - 100 * q)" by (simp add: page_def)
  show ?case
  proof (cases "int (length repos) < max_repos")
    case False
    with lrepos have stop: "\<not> int (100 * q) < max_repos" by simp
    have "P = q"
      unfolding P_def using stop Suc.prems(2,1) by (rule pages_done)
    then have same: "w\<lparr> sent := sent w @ map req [q ..< P] \<rparr> = w" by simp
    have "slice_to repos max_repos = take (nat max_repos) rows"
    proof (cases "0 \<le> max_repos")
      case True
      with False lrepos have "nat max_repos \<le> 100 * q" by linarith
      then show ?thesis using True by (simp add: slice_to_take min_def repos_def)
    next
      case neg: False
      then have "(max_repos + 99) div 100 \<le> 0" by simp
      with Suc.prems(2) have "q = 0" by simp
      with neg show ?thesis by (simp add: slice_to_def repos_def)
    qed
    moreover have "repo_pages (Suc k) self e w username max_repos (int q + 1) repos
                     = Some (Inr repos, w)"
      using False by simp
    ultimately show ?thesis unfolding repos_def same by blast
  next
    case True
    with lrepos have go: "int (100 * q) < max_repos" by simp
    then have pos: "0 < max_repos" by linarith
    then have whole: "slice_to rows max_repos = take (nat max_repos) rows"
      by (simp add: slice_to_take)
    from Suc.prems(3) obtain k' where k: "k = Suc k'" by (cases k) auto
    from served [of "length (sent w)" q] obtain resp where
      resp: "respond e (length (sent w)) (request_of self (repos_url (tables e) self username)
               (Some (repo_params (int q + 1)))) = Some resp"
        "status_code resp = 200" "json_body resp = JList page"
      unfolding page_def req_def by blast
    have mr: "make_request k self e w (repos_url (tables e) self username)
                (Some (repo_params (int q + 1))) = Some (Inr (JList page), w1)"
      unfolding k w1_def req_def using make_request_ok [OF resp(1,2), of k'] resp(3) by simp
    show ?thesis
    proof (cases "length page < 100")
      case short: True
      with lpage have l: "length listing < 100 * Suc q" by (simp add: min_def split: if_splits)
      have "P = Suc q"
        unfolding P_def using go Suc.prems(1) l by (rule pages_last)
      then have one: "w\<lparr> sent := sent w @ map req [q ..< P] \<rparr> = w1"
        by (simp add: w1_def)
      from l len have all_rows: "take (100 * Suc q) rows = rows" by simp
      show ?thesis
      proof (cases "page = []")
        case empty: True
        with lpage have "length listing \<le> 100 * q" by (simp add: min_def split: if_splits)
        with Suc.prems(1) len have "repos = rows" by (simp add: repos_def)
        moreover have "repo_pages (Suc k) self e w username max_repos (int q + 1) repos
                       = Some (Inr repos, w1)"
          using True mr unfolding empty by (rule repo_pages_empty_page)
        ultimately show ?thesis using whole unfolding repos_def one by auto
      next
        case nonempty: False
        have "map (clean_repo (tables e) username) page = map Inr page_rows"
          unfolding page_def page_rows_def
          using rows by (simp add: take_map [symmetric] drop_map [symmetric])
        then have app: "append_repos (tables e) username page repos = Inr (repos @ page_rows)"
          by (rule append_repos_rows)
        have next_rows: "repos @ page_rows = take (100 * Suc q) rows"
          unfolding repos_def page_rows_def by (simp add: take_add [symmetric] add.commute)
        note step = repo_pages_page [OF True mr nonempty app]
        from next_rows all_rows have "repos @ page_rows = rows" by simp
        moreover have "repo_pages (Suc k) self e w username max_repos (int q + 1) repos
                     = Some (Inr (repos @ page_rows), w1)"
          using step short by simp
        ultimately show ?thesis using whole unfolding repos_def one by auto
      qed
    next
      case full: False
      then have nonempty: "page \<noteq> []" by auto
      have "map (clean_repo (tables e) username) page = map Inr page_rows"
        unfolding page_def page_rows_def
        using rows by (simp add: take_map [symmetric] drop_map [symmetric])
      then have app: "append_repos (tables e) username page repos = Inr (repos @ page_rows)"
        by (rule append_repos_rows)
      have next_rows: "repos @ page_rows = take (100 * Suc q) rows"
        unfolding repos_def page_rows_def by (simp add: take_add [symmetric] add.commute)
      note step = repo_pages_page [OF True mr nonempty app]
      from full lpage have more: "100 * Suc q \<le> length listing"
        by (simp add: min_def split: if_splits)
      have fuel: "(length listing - 100 * Suc q) div 100 + 2 \<le> k"
        using Suc.prems(3) more by simp
      note further = pages_more [OF go more, folded P_def]
      from Suc.IH [OF more further(1) fuel, of w1] obtain R where
        R: "repo_pages k self e w1 username max_repos (int (Suc q) + 1)
              (take (100 * Suc q) rows)
              = Some (Inr R, w1\<lparr> sent := sent w1 @ map req [Suc q ..< P] \<rparr>)"
          "slice_to R max_repos = take (nat max_repos) rows"
        by blast
      from further(2) have "[q ..< P] = q # [Suc q ..< P]"
        by (simp add: upt_conv_Cons)
      then have trace: "w1\<lparr> sent := sent w1 @ map req [Suc q ..< P] \<rparr>
                          = w\<lparr> sent := sent w @ map req [q ..< P] \<rparr>"
        by (simp add: w1_def)
      have "int q + 1 + 1 = int (Suc q) + 1" by simp
      with R(1) next_rows trace
      have "repo_pages k self e w1 username max_repos (int q + 1 + 1) (repos @ page_rows)
              = Some (Inr R, w\<lparr> sent := sent w @ map req [q ..< P] \<rparr>)"
        by simp
      with step full have "repo_pages (Suc k) self e w username max_repos (int q + 1) repos
              = Some (Inr R, w\<lparr> sent := sent w @ map req [q ..< P] \<rparr>)"
        by simp
      with R(2) show ?thesis unfolding repos_def by blast
    qed
  qed
qed

lemma get_user_repositories_bound:
  assumes "get_user_repositories k self e w username max_repos = Some (Inr rs, w')"
  shows "length rs \<le> nat max_repos"
proof -
  from get_user_repositories_Inr [OF assms] obtain R where
    R: "repo_pages k self e w username max_repos 1 [] = Some (Inr R, w')"
    and rs: "rs = slice_to R max_repos"
    by blast
  show ?thesis
  proof (cases "0 < max_repos")
    case True
    then show ?thesis unfolding rs by (simp add: slice_to_take)
  next
    case False
    with R have "R = []" by (cases k) auto
    then show ?thesis unfolding rs by (simp add: slice_to_def)
  qed
qed

text \<open>
  Claim C6. Whatever the upstream answers, \<^verbatim>\<open>get_user_repositories\<close> returns at most
  \<^verbatim>\<open>max_repos\<close> records (none when \<^verbatim>\<open>max_repos\<close> is not positive). Let the upstream hold
  the repositories of the user \<open>name\<close> as \<open>listing\<close>, most recently pushed first, and answer
  the request for page \<open>q + 1\<close> of that user's repositories sorted by push time, descending,
  100 to a page, with the \<open>q\<close>-th hundred of the listing. Then the call for that user
  returns the rows of the first \<^verbatim>\<open>max_repos\<close> repositories of the listing, in that order,
  also when the last page fetched overshoots; and what it has sent when it returns is
  exactly those requests, for the pages from 1 on, one for each hundred that was needed and
  that the listing had, and nothing else.
\<close>

theorem get_user_repositories_most_recent:
  assumes served: "\<forall>n q. \<exists>resp. respond e n (pushed_listing_request token name (Suc q))
                                   = Some resp
                \<and> status_code resp = 200
                \<and> json_body resp = JList (take 100 (drop (100 * q) listing))"
    and rows: "map (clean_repo (tables e) (JStr name)) listing = map Inr rows"
    and fuel: "length listing div 100 + 2 \<le> k"
  shows "get_user_repositories k (init_scraper token) e w (JStr name) max_repos
           = Some (Inr (take (nat max_repos) rows),
                   w\<lparr> sent := sent w @ map (pushed_listing_request token name)
                        [1 ..< Suc (min (length listing div 100 + 1)
                                        (nat ((max_repos + 99) div 100)))] \<rparr>)
       \<and> (\<forall>k0 self0 e0 w0 username0 rs w1.
             get_user_repositories k0 self0 e0 w0 username0 max_repos = Some (Inr rs, w1)
             \<longrightarrow> length rs \<le> nat max_repos)"
proof -
  let ?P = "min (length listing div 100 + 1) (nat ((max_repos + 99) div 100))"
  let ?req = "\<lambda>q. request_of (init_scraper token)
                    (repos_url (tables e) (init_scraper token) (JStr name))
                    (Some (repo_params (int q + 1)))"
  have req: "?req = (\<lambda>q. pushed_listing_request token name (Suc q))"
    by (simp add: listing_request)
  have served': "\<exists>resp. respond e n (?req q) = Some resp \<and> status_code resp = 200
                   \<and> json_body resp = JList (take 100 (drop (100 * q) listing))" for n q
    using served by (simp add: listing_request)
  have "map ?req [0 ..< ?P] = map (pushed_listing_request token name) (map Suc [0 ..< ?P])"
    by (simp add: listing_request)
  also have "map Suc [0 ..< ?P] = [1 ..< Suc ?P]"
    by (simp only: map_Suc_upt One_nat_def)
  finally have trace: "map ?req [0 ..< ?P]
                         = map (pushed_listing_request token name) [1 ..< Suc ?P]" .
  have "\<exists>R. repo_pages k (init_scraper token) e w (JStr name) max_repos (int 0 + 1)
               (take (100 * 0) rows)
               = Some (Inr R, w\<lparr> sent := sent w @ map ?req [0 ..< ?P] \<rparr>)
             \<and> slice_to R max_repos = take (nat max_repos) rows"
    using served' rows fuel by (intro repo_pages_listing) simp_all
  then have "get_user_repositories k (init_scraper token) e w (JStr name) max_repos
               = Some (Inr (take (nat max_repos) rows),
                       w\<lparr> sent := sent w @ map (pushed_listing_request token name)
                            [1 ..< Suc ?P] \<rparr>)"
    unfolding trace by (auto simp: get_user_repositories_def)
  then show ?thesis using get_user_repositories_bound by blast
qed

lemma clean_numbered_repo:
  "clean_repo latin1_tables username (numbered_repo i) = Inr (numbered_row username i)"
proof -
  have "lower latin1_tables (py_str latin1_tables (JBool True)) = ustr ''true''"
    by (rule lower_true)
  then show ?thesis
    by (simp add: clean_repo_def numbered_repo_def numbered_row_def or_empty_def)
qed

theorem get_user_repositories_most_recent_witness:
  "(case get_user_repositories 4 (init_scraper (ustr ''t''))
           (listing_env (ustr ''t'') (ustr ''octocat'') (map numbered_repo [0..<250])) world0
           (JStr (ustr ''octocat'')) 150 of
      Some (Inr rs, w') \<Rightarrow>
        rs = map (numbered_row (JStr (ustr ''octocat''))) [0..<150]
        \<and> sent w' = [pushed_listing_request (ustr ''t'') (ustr ''octocat'') 1,
                     pushed_listing_request (ustr ''t'') (ustr ''octocat'') 2]
    | _ \<Rightarrow> False)"
proof -
  let ?listing = "map numbered_repo [0..<250]"
  let ?e = "listing_env (ustr ''t'') (ustr ''octocat'') ?listing"
  have served: "\<forall>n q. \<exists>resp. respond ?e n
                    (pushed_listing_request (ustr ''t'') (ustr ''octocat'') (Suc q)) = Some resp
                \<and> status_code resp = 200
                \<and> json_body resp = JList (take 100 (drop (100 * q) ?listing))"
  proof -
    have "nat (1 + int q) - Suc 0 = q" for q by simp
    then show ?thesis
      by (simp add: listing_env_def ok_response_def page_of_def per_page_of_def
          pushed_desc_def pushed_listing_request_def del: upt_Suc)
  qed
  have tables: "tables ?e = latin1_tables"
    by (simp add: listing_env_def)
  have rows: "map (clean_repo (tables ?e) (JStr (ustr ''octocat''))) ?listing
                = map Inr (map (numbered_row (JStr (ustr ''octocat''))) [0..<250])"
    unfolding tables by (simp add: clean_numbered_repo del: upt_Suc)
  have fuel: "length ?listing div 100 + 2 \<le> 4" by simp
  have rs: "take (nat 150) (map (numbered_row (JStr (ustr ''octocat''))) [0..<250])
          = map (numbered_row (JStr (ustr ''octocat''))) [0..<150]"
    by (simp add: take_map del: upt_Suc)
  have pages: "[1 ..< Suc (min (length ?listing div 100 + 1) (nat ((150 + 99) div 100)))]
                 = [1, 2]"
    by (simp add: upt_conv_Cons)
  from get_user_repositories_most_recent [OF served rows fuel, of world0 150]
  show ?thesis
    unfolding rs pages by (simp add: world0_def)
qed

section \<open>The user search against an upstream that answers\<close>

lemma enrich_served:
  assumes "\<And>item. item \<in> set items \<Longrightarrow>
             getitem item ''url'' = Inr (JStr (urlf item)) \<and>
             (\<forall>n. \<exists>resp. respond e n (request_of self (urlf item) None) = Some resp
                    \<and> status_code resp = 200 \<and> clean_user (tables e) (json_body resp) = Inr (rowf item))"
    and "0 < k"
  shows "enrich k self e w items users =
           Some (Inr (users @ map rowf items),
                 w\<lparr> sent := sent w @ map (\<lambda>item. request_of self (urlf item) None) items \<rparr>)"
  using assms(1)
proof (induction items arbitrary: w users)
  case Nil
  show ?case by simp
next
  case (Cons item rest)
  from \<open>0 < k\<close> obtain k' where k: "k = Suc k'" by (cases k) auto
  let ?r = "request_of self (urlf item) None"
  let ?w1 = "w\<lparr> sent := sent w @ [?r] \<rparr>"
  from Cons.prems [of item] have u: "getitem item ''url'' = Inr (JStr (urlf item))" by simp
  from Cons.prems [of item] obtain resp where
    resp: "respond e (length (sent w)) ?r = Some resp" "status_code resp = 200"
      "clean_user (tables e) (json_body resp) = Inr (rowf item)"
    by auto
  have mr: "make_request k self e w (urlf item) None = Some (Inr (json_body resp), ?w1)"
    unfolding k using resp(1,2) by (rule make_request_ok)
  have "enrich k self e ?w1 rest (users @ [rowf item]) =
          Some (Inr ((users @ [rowf item]) @ map rowf rest),
                ?w1\<lparr> sent := sent ?w1 @ map (\<lambda>item. request_of self (urlf item) None) rest \<rparr>)"
    using Cons.prems by (intro Cons.IH) simp
  then show ?case using u mr resp(3) by simp
qed

lemma search_pages_served:
  assumes details: "\<And>item. item \<in> set (concat pages) \<Longrightarrow>
             getitem item ''url'' = Inr (JStr (urlf item)) \<and>
             (\<forall>n. \<exists>resp. respond e n (request_of self (urlf item) None) = Some resp
                    \<and> status_code resp = 200 \<and> clean_user (tables e) (json_body resp) = Inr (rowf item))"
    and served: "\<And>n i. i < length pages \<Longrightarrow>
             \<exists>resp. respond e n (search_request self location min_followers (page + int i))
                      = Some resp
                  \<and> status_code resp = 200
                  \<and> dict_get (json_body resp) ''items'' = Inr (JList (pages ! i))"
    and nonempty: "\<And>items. items \<in> set pages \<Longrightarrow> items \<noteq> []"
    and thereafter: "\<And>n. \<exists>resp items.
             respond e n (search_request self location min_followers (page + int (length pages)))
               = Some resp
             \<and> status_code resp = 200
             \<and> dict_get (json_body resp) ''items'' = Inr items \<and> \<not> truthy items"
    and fuel: "length pages + 2 \<le> k"
  shows "search_pages k self e w location min_followers page users =
           Some (Inr (users @ map rowf (concat pages)),
                 w\<lparr> sent := sent w @ search_trace self location min_followers urlf page pages \<rparr>)"
  using assms
proof (induction pages arbitrary: k page w users)
  case Nil
  from Nil.prems(5) obtain k' where k: "k = Suc (Suc k')"
    by (cases k; cases "k - 1") auto
  let ?r = "search_request self location min_followers page"
  from Nil.prems(4) [of "length (sent w)"] obtain resp items where
    resp: "respond e (length (sent w)) ?r = Some resp" "status_code resp = 200"
      "dict_get (json_body resp) ''items'' = Inr items" "\<not> truthy items"
    by auto
  have "make_request (Suc k') self e w (base_url self @ ustr ''/search/users'')
          (Some (search_params location min_followers page))
        = Some (Inr (json_body resp), w\<lparr> sent := sent w @ [?r] \<rparr>)"
    using resp(1,2) unfolding search_request_def by (rule make_request_ok)
  then show ?case using resp(3,4) unfolding k by simp
next
  case (Cons items pages)
  from Cons.prems(5) obtain k' where k: "k = Suc (Suc k')"
    by (cases k; cases "k - 1") auto
  let ?r = "search_request self location min_followers page"
  let ?w1 = "w\<lparr> sent := sent w @ [?r] \<rparr>"
  let ?w2 = "?w1\<lparr> sent := sent ?w1 @ map (\<lambda>item. request_of self (urlf item) None) items \<rparr>"
  from Cons.prems(2) [of 0 "length (sent w)"] obtain resp where
    resp: "respond e (length (sent w)) ?r = Some resp" "status_code resp = 200"
      "dict_get (json_body resp) ''items'' = Inr (JList items)"
    by auto
  have ne: "items \<noteq> []" using Cons.prems(3) [of items] by simp
  have mr: "make_request (Suc k') self e w (base_url self @ ustr ''/search/users'')
          (Some (search_params location min_followers page))
        = Some (Inr (json_body resp), ?w1)"
    using resp(1,2) unfolding search_request_def by (rule make_request_ok)
  have en: "enrich (Suc k') self e ?w1 items users = Some (Inr (users @ map rowf items), ?w2)"
    using Cons.prems(1) by (intro enrich_served) simp_all
  have rest: "search_pages (Suc k') self e ?w2 location min_followers (page + 1)
                (users @ map rowf items) =
           Some (Inr ((users @ map rowf items) @ map rowf (concat pages)),
                 ?w2\<lparr> sent := sent ?w2
                        @ search_trace self location min_followers urlf (page + 1) pages \<rparr>)"
  proof (rule Cons.IH)
    show "getitem item ''url'' = Inr (JStr (urlf item)) \<and>
          (\<forall>n. \<exists>resp. respond e n (request_of self (urlf item) None) = Some resp
                 \<and> status_code resp = 200 \<and> clean_user (tables e) (json_body resp) = Inr (rowf item))"
      if "item \<in> set (concat pages)" for item
      using Cons.prems(1) [of item] that by simp
    show "\<exists>resp. respond e n (search_request self location min_followers (page + 1 + int i))
                      = Some resp
                  \<and> status_code resp = 200
                  \<and> dict_get (json_body resp) ''items'' = Inr (JList (pages ! i))"
      if "i < length pages" for n i
    proof -
      have "page + int (Suc i) = page + 1 + int i" by simp
      with Cons.prems(2) [of "Suc i" n] that show ?thesis by (simp add: add.assoc)
    qed
    show "items' \<noteq> []" if "items' \<in> set pages" for items'
      using Cons.prems(3) [of items'] that by simp
    show "\<exists>resp items.
             respond e n (search_request self location min_followers
                            (page + 1 + int (length pages))) = Some resp
             \<and> status_code resp = 200
             \<and> dict_get (json_body resp) ''items'' = Inr items \<and> \<not> truthy items" for n
    proof -
      have "page + int (length (items # pages)) = page + 1 + int (length pages)" by simp
      with Cons.prems(4) [of n] show ?thesis by (simp add: add.assoc)
    qed
    show "length pages + 2 \<le> Suc k'" using Cons.prems(5) k by simp
  qed
  show ?case
    unfolding k using mr resp(3) ne en rest by simp
qed

lemma search_trace_page_requests:
  "length (filter (\<lambda>r. params r \<noteq> None)
             (search_trace self location min_followers urlf page pages)) = length pages + 1"
  by (induction pages arbitrary: page)
     (simp_all add: search_request_def request_of_def filter_False)

lemma search_trace_detail_requests:
  "length (filter (\<lambda>r. params r = None)
             (search_trace self location min_followers urlf page pages)) = length (concat pages)"
  by (induction pages arbitrary: page)
     (simp_all add: search_request_def request_of_def)

section \<open>Three pages of users\<close>

text \<open>
  Claim C1, as the code has it. Let the search serve pages of 100, 100 and 37 items and an
  empty fourth page, and let every detail request be answered with a profile that
  normalizes. Then \<^verbatim>\<open>search_users\<close> returns the 237 normalized records, in order, and has
  sent four page requests (the three pages and the empty page that ends the loop, which has
  no other way to end) and 237 detail requests, in the order of \<open>search_trace\<close>.
\<close>

theorem search_users_three_pages:
  assumes sizes: "length p1 = 100 \<and> length p2 = 100 \<and> length p3 = 37"
    and served: "\<forall>n. \<forall>i<3. \<exists>resp.
             respond e n (search_request self location min_followers (1 + int i)) = Some resp
             \<and> status_code resp = 200
             \<and> dict_get (json_body resp) ''items'' = Inr (JList ([p1, p2, p3] ! i))"
    and thereafter: "\<forall>n. \<exists>resp items.
             respond e n (search_request self location min_followers 4) = Some resp
             \<and> status_code resp = 200
             \<and> dict_get (json_body resp) ''items'' = Inr items \<and> \<not> truthy items"
    and details: "\<forall>item \<in> set (p1 @ p2 @ p3).
             getitem item ''url'' = Inr (JStr (urlf item)) \<and>
             (\<forall>n. \<exists>resp. respond e n (request_of self (urlf item) None) = Some resp
                    \<and> status_code resp = 200 \<and> clean_user (tables e) (json_body resp) = Inr (rowf item))"
    and fuel: "5 \<le> k"
  shows "\<exists>users w' new.
           search_users k self e w location min_followers = Some (Inr users, w')
           \<and> users = map rowf (p1 @ p2 @ p3) \<and> length users = 237
           \<and> sent w' = sent w @ new
           \<and> new = search_trace self location min_followers urlf 1 [p1, p2, p3]
           \<and> length (filter (\<lambda>r. params r \<noteq> None) new) = 4
           \<and> length (filter (\<lambda>r. params r = None) new) = 237"
proof -
  let ?pages = "[p1, p2, p3]"
  have run: "search_pages k self e w location min_followers 1 [] =
           Some (Inr ([] @ map rowf (concat ?pages)),
                 w\<lparr> sent := sent w @ search_trace self location min_followers urlf 1 ?pages \<rparr>)"
  proof (rule search_pages_served)
    show "getitem item ''url'' = Inr (JStr (urlf item)) \<and>
          (\<forall>n. \<exists>resp. respond e n (request_of self (urlf item) None) = Some resp
                 \<and> status_code resp = 200 \<and> clean_user (tables e) (json_body resp) = Inr (rowf item))"
      if "item \<in> set (concat ?pages)" for item
      using details that by simp
    show "\<exists>resp. respond e n (search_request self location min_followers (1 + int i)) = Some resp
                  \<and> status_code resp = 200
                  \<and> dict_get (json_body resp) ''items'' = Inr (JList (?pages ! i))"
      if "i < length ?pages" for n i
      using served that by simp
    show "items \<noteq> []" if "items \<in> set ?pages" for items
      using sizes that by auto
    show "\<exists>resp items.
             respond e n (search_request self location min_followers (1 + int (length ?pages)))
               = Some resp
             \<and> status_code resp = 200
             \<and> dict_get (json_body resp) ''items'' = Inr items \<and> \<not> truthy items" for n
      using thereafter by simp
    show "length ?pages + 2 \<le> k" using fuel by simp
  qed
  have "length (filter (\<lambda>r. params r \<noteq> None)
          (search_trace self location min_followers urlf 1 ?pages)) = 4"
    by (simp only: search_trace_page_requests) simp
  moreover have "length (filter (\<lambda>r. params r = None)
          (search_trace self location min_followers urlf 1 ?pages)) = 237"
    using sizes by (simp only: search_trace_detail_requests) simp
  moreover have "length (map rowf (p1 @ p2 @ p3)) = 237" using sizes by simp
  ultimately show ?thesis
    using run by (simp add: search_users_def)
qed

text \<open>The sample upstream with 237 users serves such pages.\<close>

lemma search_env_page:
  "respond (search_env nusers) n (search_request self location min_followers page) =
     Some (ok_response (JObj [(''total_count'', JInt (int nusers)),
                              (''items'', JList (search_page nusers page))]))"
  by (simp add: search_env_def search_request_def request_of_def page_of_def search_params_def)

lemma search_env_detail:
  "respond (search_env nusers) n (request_of self u None) = Some (ok_response (profile_of_url u))"
  by (simp add: search_env_def request_of_def)

lemma search_env_tables: "tables (search_env nusers) = latin1_tables"
  by (simp add: search_env_def)

lemma clean_profile: "clean_user latin1_tables (profile_of_url u) = Inr (profile_row u)"
proof -
  have "clean_company_name latin1_tables (JStr (ustr ''@github '')) = Inr (ustr ''GITHUB'')"
    by (simp add: ustr_def strip_def is_space_def lstrip_def upper_def upper_char_def
        ascii_upper_def)
  moreover have "lower latin1_tables (py_str latin1_tables (JBool True)) = ustr ''true''"
    by (rule lower_true)
  ultimately show ?thesis
    by (simp add: clean_user_def profile_of_url_def profile_row_def or_empty_def
        del: clean_company_name.simps)
qed

lemma search_item_url:
  "getitem (search_item i) ''url'' = Inr (JStr (item_url (search_item i)))"
  by (simp add: search_item_def item_url_def)

lemma search_pages_237:
  "search_page 237 1 = map search_item [0..<100]"
  "search_page 237 2 = map search_item [100..<200]"
  "search_page 237 3 = map search_item [200..<237]"
  "search_page 237 4 = []"
  by (simp_all add: search_page_def take_upt drop_upt del: upt_rec_numeral)

lemma search_env_237_served:
  "\<forall>n. \<forall>i<3. \<exists>resp.
      respond (search_env 237) n (search_request self location min_followers (1 + int i))
        = Some resp
      \<and> status_code resp = 200
      \<and> dict_get (json_body resp) ''items''
          = Inr (JList ([search_page 237 1, search_page 237 2, search_page 237 3] ! i))"
proof (intro allI impI)
  fix n i :: nat
  assume "i < 3"
  then consider "i = 0" | "i = 1" | "i = 2" by linarith
  then show "\<exists>resp.
      respond (search_env 237) n (search_request self location min_followers (1 + int i))
        = Some resp
      \<and> status_code resp = 200
      \<and> dict_get (json_body resp) ''items''
          = Inr (JList ([search_page 237 1, search_page 237 2, search_page 237 3] ! i))"
    by cases (simp_all add: search_env_page ok_response_def)
qed

lemma search_env_237_thereafter:
  "\<forall>n. \<exists>resp items.
      respond (search_env 237) n (search_request self location min_followers 4) = Some resp
      \<and> status_code resp = 200
      \<and> dict_get (json_body resp) ''items'' = Inr items \<and> \<not> truthy items"
  by (simp add: search_env_page ok_response_def search_pages_237)

lemma search_env_details:
  "\<forall>item \<in> set (search_page nusers p1 @ search_page nusers p2 @ search_page nusers p3).
      getitem item ''url'' = Inr (JStr (item_url item)) \<and>
      (\<forall>n. \<exists>resp. respond (search_env nusers) n (request_of self (item_url item) None) = Some resp
             \<and> status_code resp = 200
             \<and> clean_user (tables (search_env nusers)) (json_body resp)
                 = Inr (profile_row (item_url item)))"
  by (auto simp: search_page_def search_item_url search_env_detail ok_response_def clean_profile
      search_env_tables)

lemma search_pages_237_sizes:
  "length (search_page 237 1) = 100 \<and> length (search_page 237 2) = 100
     \<and> length (search_page 237 3) = 37"
  by (simp add: search_pages_237 del: upt_rec_numeral)

theorem search_users_three_pages_witness:
  "(case search_users 5 (init_scraper (ustr ''t'')) (search_env 237) world0 (ustr ''Bangalore'') 100 of
      Some (Inr users, w') \<Rightarrow>
        length users = 237
        \<and> length (filter (\<lambda>r. params r \<noteq> None) (sent w')) = 4
        \<and> length (filter (\<lambda>r. params r = None) (sent w')) = 237
    | _ \<Rightarrow> False)"
  using search_users_three_pages [OF search_pages_237_sizes
      search_env_237_served [of "init_scraper (ustr ''t'')" "ustr ''Bangalore''" 100]
      search_env_237_thereafter [of "init_scraper (ustr ''t'')" "ustr ''Bangalore''" 100]
      search_env_details [of 237 1 2 3 "init_scraper (ustr ''t'')"],
      where k = 5 and w = world0]
  by (auto simp: world0_def)

text \<open>
  Claim C1 as stated fails on the number of page requests: against the same upstream the
  run returns the 237 records after four page requests, not three, since only the empty
  fourth page ends the loop.
\<close>

theorem search_users_page_requests_counterexample:
  "(case search_users 5 (init_scraper (ustr ''t'')) (search_env 237) world0 (ustr ''Bangalore'') 100 of
      Some (Inr users, w') \<Rightarrow>
        length users = 237
        \<and> length (filter (\<lambda>r. params r \<noteq> None) (sent w')) = 4
        \<and> length (filter (\<lambda>r. params r \<noteq> None) (sent w')) \<noteq> 3
    | _ \<Rightarrow> False)"
proof -
  let ?self = "init_scraper (ustr ''t'')"
  let ?pages = "[search_page 237 1, search_page 237 2, search_page 237 3]"
  have run: "search_pages 5 ?self (search_env 237) world0 (ustr ''Bangalore'') 100 1 [] =
           Some (Inr ([] @ map (\<lambda>item. profile_row (item_url item)) (concat ?pages)),
                 world0\<lparr> sent := sent world0
                   @ search_trace ?self (ustr ''Bangalore'') 100 item_url 1 ?pages \<rparr>)"
  proof (rule search_pages_served)
    show "getitem item ''url'' = Inr (JStr (item_url item)) \<and>
          (\<forall>n. \<exists>resp. respond (search_env 237) n (request_of ?self (item_url item) None)
                   = Some resp
                 \<and> status_code resp = 200
                 \<and> clean_user (tables (search_env 237)) (json_body resp)
                     = Inr (profile_row (item_url item)))"
      if "item \<in> set (concat ?pages)" for item
      using search_env_details [of 237 1 2 3 ?self] that by simp
    show "\<exists>resp. respond (search_env 237) n (search_request ?self (ustr ''Bangalore'') 100 (1 + int i))
                    = Some resp
                  \<and> status_code resp = 200
                  \<and> dict_get (json_body resp) ''items'' = Inr (JList (?pages ! i))"
      if "i < length ?pages" for n i
      using search_env_237_served [of ?self "ustr ''Bangalore''" 100] that by simp
    show "items \<noteq> []" if "items \<in> set ?pages" for items
      using search_pages_237_sizes that by auto
    show "\<exists>resp items.
             respond (search_env 237) n
               (search_request ?self (ustr ''Bangalore'') 100 (1 + int (length ?pages))) = Some resp
             \<and> status_code resp = 200
             \<and> dict_get (json_body resp) ''items'' = Inr items \<and> \<not> truthy items" for n
      using search_env_237_thereafter [of ?self "ustr ''Bangalore''" 100] by simp
    show "length ?pages + 2 \<le> 5" by simp
  qed
  have "length (filter (\<lambda>r. params r \<noteq> None)
          (search_trace ?self (ustr ''Bangalore'') 100 item_url 1 ?pages)) = 4"
    by (simp only: search_trace_page_requests) simp
  moreover have "length (concat ?pages) = 237"
    using search_pages_237_sizes by simp
  ultimately show ?thesis
    using run by (simp add: search_users_def world0_def)
qed

section \<open>Termination of the user search\<close>

text \<open>More fuel does not change a result.\<close>

lemma make_request_mono:
  "make_request k self e w u ps = Some x \<Longrightarrow> k \<le> k' \<Longrightarrow> make_request k' self e w u ps = Some x"
proof (induction k arbitrary: k' w)
  case 0
  then show ?case by simp
next
  case (Suc k)
  from Suc.prems(2) obtain j where k': "k' = Suc j" and j: "k \<le> j" by (cases k') auto
  let ?r = "request_of self u ps"
  show ?case
  proof (cases "respond e (length (sent w)) ?r")
    case None
    with Suc.prems(1) show ?thesis unfolding k' by (simp add: Let_def)
  next
    case (Some resp)
    show ?thesis
    proof (cases "retried (Some resp)")
      case False
      with Some Suc.prems(1) show ?thesis
        unfolding k' by (auto simp: Let_def retried_def split: if_splits sum.splits)
    next
      case True
      with Some Suc.prems(1) Suc.IH [OF _ j] show ?thesis
        unfolding k' by (auto simp: Let_def retried_def split: if_splits sum.splits)
    qed
  qed
qed

lemma enrich_mono:
  "enrich k self e w items users = Some x \<Longrightarrow> k \<le> k' \<Longrightarrow>
   enrich k' self e w items users = Some x"
proof (induction items arbitrary: w users)
  case Nil
  then show ?case by simp
next
  case (Cons item rest)
  show ?case
  proof (cases "getitem item ''url''")
    case (Inl err)
    with Cons.prems show ?thesis by simp
  next
    case (Inr v)
    show ?thesis
    proof (cases "\<exists>u. v = JStr u")
      case False
      with Inr Cons.prems show ?thesis by (cases v) simp_all
    next
      case True
      then obtain u where v: "v = JStr u" by blast
      show ?thesis
      proof (cases "make_request k self e w u None")
        case None
        with Inr v Cons.prems show ?thesis by simp
      next
        case (Some a)
        from make_request_mono [OF Some Cons.prems(2)]
        have a': "make_request k' self e w u None = Some a" .
        obtain res w1 where a: "a = (res, w1)" by (cases a)
        show ?thesis
        proof (cases res)
          case (Inl err)
          with Inr v Some a' a Cons.prems show ?thesis by simp
        next
          case ud: (Inr user_data)
          show ?thesis
          proof (cases "clean_user (tables e) user_data")
            case (Inl err)
            with Inr v Some a' a ud Cons.prems show ?thesis by simp
          next
            case row: (Inr cleaned_data)
            with Inr v Some a ud Cons.prems(1)
            have "enrich k self e w1 rest (users @ [cleaned_data]) = Some x" by simp
            from Cons.IH [OF this Cons.prems(2)] Inr v a' a ud row show ?thesis by simp
          qed
        qed
      qed
    qed
  qed
qed

text \<open>One round of the search loop, by what the page request and the items come to.\<close>

lemma search_pages_request_fails:
  assumes "make_request k self e w (base_url self @ ustr ''/search/users'')
             (Some (search_params location min_followers page)) = Some (Inl err, w1)"
  shows "search_pages (Suc k) self e w location min_followers page users = Some (Inl err, w1)"
  using assms by simp

lemma search_pages_no_list_eq:
  assumes "make_request k self e w (base_url self @ ustr ''/search/users'')
             (Some (search_params location min_followers page)) = Some (Inr response, w1)"
    and "\<not> (\<exists>us. dict_get response ''items'' = Inr (JList us) \<and> us \<noteq> [])"
  shows "search_pages (Suc k) self e w location min_followers page users =
           (case dict_get response ''items'' of
              Inl err \<Rightarrow> Some (Inl err, w1)
            | Inr items \<Rightarrow>
                if \<not> truthy items then Some (Inr users, w1) else Some (Inl TypeError, w1))"
proof (cases "dict_get response ''items''")
  case (Inl err)
  with assms(1) show ?thesis by simp
next
  case (Inr items)
  show ?thesis
  proof (cases "truthy items")
    case False
    with Inr assms(1) show ?thesis by simp
  next
    case True
    with Inr assms(2) have "\<not> (\<exists>us. items = JList us)" by auto
    with Inr True assms(1) show ?thesis by (cases items) simp_all
  qed
qed

lemma search_pages_no_list:
  assumes "make_request k self e w (base_url self @ ustr ''/search/users'')
             (Some (search_params location min_followers page)) = Some (Inr response, w1)"
    and "\<not> (\<exists>us. dict_get response ''items'' = Inr (JList us) \<and> us \<noteq> [])"
  shows "\<exists>res. search_pages (Suc k) self e w location min_followers page users = Some (res, w1)
           \<and> (\<forall>rows. res = Inr rows \<longrightarrow>
                 rows = users \<and>
                 (\<exists>items. dict_get response ''items'' = Inr items \<and> \<not> truthy items))"
proof (cases "dict_get response ''items''")
  case (Inl err)
  with assms(1) show ?thesis by simp
next
  case (Inr items)
  show ?thesis
  proof (cases "truthy items")
    case False
    with Inr assms(1) show ?thesis by simp
  next
    case True
    with Inr assms(2) have "\<not> (\<exists>us. items = JList us)" by auto
    with Inr True assms(1) show ?thesis by (cases items) simp_all
  qed
qed

lemma search_pages_list:
  assumes "make_request k self e w (base_url self @ ustr ''/search/users'')
             (Some (search_params location min_followers page)) = Some (Inr response, w1)"
    and "dict_get response ''items'' = Inr (JList us)" and "us \<noteq> []"
  shows "search_pages (Suc k) self e w location min_followers page users =
           (case enrich k self e w1 us users of
              None \<Rightarrow> None
            | Some (Inl err, w2) \<Rightarrow> Some (Inl err, w2)
            | Some (Inr users', w2) \<Rightarrow>
                search_pages k self e w2 location min_followers (page + 1) users')"
  using assms by simp

lemma search_pages_mono:
  "search_pages k self e w location min_followers page users = Some x \<Longrightarrow> k \<le> k' \<Longrightarrow>
   search_pages k' self e w location min_followers page users = Some x"
proof (induction k arbitrary: k' w page users)
  case 0
  then show ?case by simp
next
  case (Suc k)
  from Suc.prems(2) obtain j where k': "k' = Suc j" and j: "k \<le> j" by (cases k') auto
  let ?mr = "\<lambda>k. make_request k self e w (base_url self @ ustr ''/search/users'')
             (Some (search_params location min_followers page))"
  show ?case
  proof (cases "?mr k")
    case None
    with Suc.prems(1) show ?thesis by simp
  next
    case (Some a)
    from make_request_mono [OF Some j] have a': "?mr j = Some a" .
    obtain res w1 where a: "a = (res, w1)" by (cases a)
    show ?thesis
    proof (cases res)
      case (Inl err)
      with Some a' a Suc.prems(1) show ?thesis unfolding k' by simp
    next
      case (Inr response)
      show ?thesis
      proof (cases "\<exists>us. dict_get response ''items'' = Inr (JList us) \<and> us \<noteq> []")
        case False
        from search_pages_no_list_eq [OF Some [unfolded a Inr] False, of users]
          search_pages_no_list_eq [OF a' [unfolded a Inr] False, of users] Suc.prems(1)
        show ?thesis unfolding k' by (simp del: search_pages.simps)
      next
        case True
        then obtain us where us: "dict_get response ''items'' = Inr (JList us)" "us \<noteq> []"
          by blast
        note s = search_pages_list [OF Some [unfolded a Inr] us, of users]
        note s' = search_pages_list [OF a' [unfolded a Inr] us, of users]
        show ?thesis
        proof (cases "enrich k self e w1 us users")
          case None
          with s Suc.prems(1) show ?thesis by simp
        next
          case en: (Some b)
          from enrich_mono [OF en j] have en': "enrich j self e w1 us users = Some b" .
          obtain res2 w2 where b: "b = (res2, w2)" by (cases b)
          show ?thesis
          proof (cases res2)
            case (Inl err)
            with s s' en en' b Suc.prems(1) show ?thesis unfolding k' by simp
          next
            case (Inr users')
            with s en b Suc.prems(1)
            have "search_pages k self e w2 location min_followers (page + 1) users' = Some x"
              by simp
            from Suc.IH [OF this j] s' en' b Inr show ?thesis unfolding k' by simp
          qed
        qed
      qed
    qed
  qed
qed

text \<open>A request that is not retried forever is answered for good.\<close>

lemma make_request_not_retried:
  assumes "\<not> retried (respond e (length (sent w)) (request_of self u ps))"
  shows "\<exists>x. make_request (Suc k) self e w u ps = Some x"
  using assms by (auto simp: Let_def retried_def split: option.splits sum.splits)

lemma make_request_retried:
  assumes "retried (respond e (length (sent w)) (request_of self u ps))"
  shows "\<exists>w1. length (sent w1) = Suc (length (sent w))
           \<and> make_request (Suc k) self e w u ps = make_request k self e w1 u ps"
proof -
  from assms obtain resp where
    resp: "respond e (length (sent w)) (request_of self u ps) = Some resp"
      "status_code resp \<noteq> 200"
    by (auto simp: retried_def split: option.splits)
  show ?thesis
  proof (cases "status_code resp = 403")
    case True
    with assms resp obtain t where t: "reset_time resp = Inr t"
      by (auto simp: retried_def split: sum.splits)
    let ?w1 = "w\<lparr> sent := sent w @ [request_of self u ps],
                   slept := slept w @ [max (real_of_int t - clock e (length (sent w))) 0 + 1] \<rparr>"
    have "make_request (Suc k) self e w u ps = make_request k self e ?w1 u ps"
      using resp True t by (simp add: Let_def)
    moreover have "length (sent ?w1) = Suc (length (sent w))" by simp
    ultimately show ?thesis by blast
  next
    case False
    with assms resp have nr: "\<not> raises_for_status resp" by (simp add: retried_def)
    let ?w1 = "w\<lparr> sent := sent w @ [request_of self u ps] \<rparr>"
    have "make_request (Suc k) self e w u ps = make_request k self e ?w1 u ps"
      using resp False nr by (simp add: Let_def)
    moreover have "length (sent ?w1) = Suc (length (sent w))" by simp
    ultimately show ?thesis by blast
  qed
qed

lemma make_request_answered_after:
  "\<not> retried (respond e (length (sent w) + d) (request_of self u ps)) \<Longrightarrow>
   \<exists>x. make_request (Suc d) self e w u ps = Some x"
proof (induction d arbitrary: w)
  case 0
  then show ?case using make_request_not_retried [of e w self u ps 0] by simp
next
  case (Suc d)
  show ?case
  proof (cases "retried (respond e (length (sent w)) (request_of self u ps))")
    case False
    then show ?thesis by (rule make_request_not_retried)
  next
    case True
    from make_request_retried [OF True, of "Suc d"] obtain w1 where
      w1: "length (sent w1) = Suc (length (sent w))"
        "make_request (Suc (Suc d)) self e w u ps = make_request (Suc d) self e w1 u ps"
      by blast
    from Suc.prems w1(1)
    have "\<not> retried (respond e (length (sent w1) + d) (request_of self u ps))" by simp
    from Suc.IH [OF this] w1(2) show ?thesis by simp
  qed
qed

lemma make_request_terminates:
  assumes "\<forall>n r. \<exists>m\<ge>n. \<not> retried (respond e m r)"
  shows "\<exists>k x. make_request k self e w u ps = Some x"
proof -
  from assms obtain m where "m \<ge> length (sent w)"
    and m: "\<not> retried (respond e m (request_of self u ps))"
    by blast
  then obtain d where "m = length (sent w) + d" using le_Suc_ex by blast
  with m make_request_answered_after [of e w d self u ps] show ?thesis by blast
qed

lemma enrich_terminates:
  assumes "\<forall>n r. \<exists>m\<ge>n. \<not> retried (respond e m r)"
  shows "\<exists>k x. enrich k self e w items users = Some x"
proof (induction items arbitrary: w users)
  case Nil
  show ?case by simp
next
  case (Cons item rest)
  show ?case
  proof (cases "getitem item ''url''")
    case (Inl err)
    then show ?thesis by simp
  next
    case (Inr v)
    show ?thesis
    proof (cases "\<exists>u. v = JStr u")
      case False
      with Inr show ?thesis by (cases v) simp_all
    next
      case True
      then obtain u where v: "v = JStr u" by blast
      from make_request_terminates [OF assms, of self w u None] obtain k1 a where
        mr: "make_request k1 self e w u None = Some a"
        by blast
      obtain res w1 where a: "a = (res, w1)" by (cases a)
      show ?thesis
      proof (cases res)
        case (Inl err)
        with Inr v mr a have "enrich k1 self e w (item # rest) users = Some (Inl err, w1)"
          by simp
        then show ?thesis by blast
      next
        case ud: (Inr user_data)
        show ?thesis
        proof (cases "clean_user (tables e) user_data")
          case (Inl err)
          with Inr v mr a ud
          have "enrich k1 self e w (item # rest) users = Some (Inl err, w1)" by simp
          then show ?thesis by blast
        next
          case row: (Inr cleaned_data)
          from Cons.IH [of w1 "users @ [cleaned_data]"] obtain k2 y where
            rest: "enrich k2 self e w1 rest (users @ [cleaned_data]) = Some y"
            by blast
          have "make_request (max k1 k2) self e w u None = Some a"
            using mr by (rule make_request_mono) simp
          moreover have "enrich (max k1 k2) self e w1 rest (users @ [cleaned_data]) = Some y"
            using rest by (rule enrich_mono) simp
          ultimately have "enrich (max k1 k2) self e w (item # rest) users = Some y"
            using Inr v a ud row by simp
          then show ?thesis by blast
        qed
      qed
    qed
  qed
qed

lemma search_pages_terminates:
  assumes answered: "\<forall>n r. \<exists>m\<ge>n. \<not> retried (respond e m r)"
    and empty: "\<forall>n resp.
        respond e n (search_request self location min_followers P) = Some resp
          \<and> status_code resp = 200
        \<longrightarrow> (\<exists>items. dict_get (json_body resp) ''items'' = Inr items \<and> \<not> truthy items)"
  shows "page \<le> P \<Longrightarrow> nat (P - page) = d \<Longrightarrow>
         \<exists>k x. search_pages k self e w location min_followers page users = Some x"
proof (induction d arbitrary: page w users)
  case 0
  then have page: "page = P" by simp
  from make_request_terminates [OF answered, of self w "base_url self @ ustr ''/search/users''"
      "Some (search_params location min_followers page)"] obtain k1 a where
    mr: "make_request k1 self e w (base_url self @ ustr ''/search/users'')
           (Some (search_params location min_followers page)) = Some a"
    by blast
  obtain res w1 where a: "a = (res, w1)" by (cases a)
  show ?case
  proof (cases res)
    case (Inl err)
    from search_pages_request_fails [OF mr [unfolded a Inl]] show ?thesis by blast
  next
    case (Inr response)
    from make_request_Inr_last [OF mr [unfolded a Inr]] obtain resp where
      "respond e (length (sent w1) - 1) (search_request self location min_followers P)
         = Some resp" "status_code resp = 200" "json_body resp = response"
      unfolding search_request_def page by blast
    with empty obtain items where
      "dict_get response ''items'' = Inr items" "\<not> truthy items"
      by blast
    then have "\<not> (\<exists>us. dict_get response ''items'' = Inr (JList us) \<and> us \<noteq> [])" by auto
    from search_pages_no_list [OF mr [unfolded a Inr] this] show ?thesis by blast
  qed
next
  case (Suc d)
  from make_request_terminates [OF answered, of self w "base_url self @ ustr ''/search/users''"
      "Some (search_params location min_followers page)"] obtain k1 a where
    mr: "make_request k1 self e w (base_url self @ ustr ''/search/users'')
           (Some (search_params location min_followers page)) = Some a"
    by blast
  obtain res w1 where a: "a = (res, w1)" by (cases a)
  show ?case
  proof (cases res)
    case (Inl err)
    from search_pages_request_fails [OF mr [unfolded a Inl]] show ?thesis by blast
  next
    case (Inr response)
    show ?thesis
    proof (cases "\<exists>us. dict_get response ''items'' = Inr (JList us) \<and> us \<noteq> []")
      case False
      from search_pages_no_list [OF mr [unfolded a Inr] False] show ?thesis by blast
    next
      case True
      then obtain us where us: "dict_get response ''items'' = Inr (JList us)" "us \<noteq> []"
        by blast
      from enrich_terminates [OF answered, of self w1 us users] obtain k2 b where
        en: "enrich k2 self e w1 us users = Some b"
        by blast
      obtain res2 w2 where b: "b = (res2, w2)" by (cases b)
      show ?thesis
      proof (cases res2)
        case (Inl err)
        have mr': "make_request (max k1 k2) self e w (base_url self @ ustr ''/search/users'')
           (Some (search_params location min_followers page)) = Some (Inr response, w1)"
          using mr [unfolded a Inr] by (rule make_request_mono) simp
        have en': "enrich (max k1 k2) self e w1 us users = Some (Inl err, w2)"
          using enrich_mono [OF en, of "max k1 k2"] b Inl by simp
        have "search_pages (Suc (max k1 k2)) self e w location min_followers page users
                  = Some (Inl err, w2)"
          by (simp add: search_pages_list [OF mr' us] en' del: search_pages.simps)
        then show ?thesis by blast
      next
        case users': (Inr users')
        from Suc.prems have "page + 1 \<le> P" "nat (P - (page + 1)) = d" by linarith+
        from Suc.IH [OF this, of w2 users'] obtain k3 x where
          rest: "search_pages k3 self e w2 location min_followers (page + 1) users' = Some x"
          by blast
        let ?k = "max k1 (max k2 k3)"
        have mr': "make_request ?k self e w (base_url self @ ustr ''/search/users'')
           (Some (search_params location min_followers page)) = Some (Inr response, w1)"
          using mr [unfolded a Inr] by (rule make_request_mono) simp
        have en': "enrich ?k self e w1 us users = Some (Inr users', w2)"
          using enrich_mono [OF en, of ?k] b users' by simp
        have rest': "search_pages ?k self e w2 location min_followers (page + 1) users' = Some x"
          using search_pages_mono [OF rest, of ?k] by simp
        have "search_pages (Suc ?k) self e w location min_followers page users = Some x"
          by (simp add: search_pages_list [OF mr' us] en' rest' del: search_pages.simps)
        then show ?thesis by blast
      qed
    qed
  qed
qed

text \<open>Against a request that is refused with 403 forever the retry loop does not end:
  the wait is unbounded by design.\<close>

lemma make_request_refused_forever:
  assumes "\<forall>n. \<exists>resp t. respond e n (request_of self u ps) = Some resp
             \<and> status_code resp = 403 \<and> reset_time resp = Inr t"
  shows "make_request k self e w u ps = None"
proof (induction k arbitrary: w)
  case 0
  show ?case by simp
next
  case (Suc k)
  from assms obtain resp t where
    "respond e (length (sent w)) (request_of self u ps) = Some resp"
    "status_code resp = 403" "reset_time resp = Inr t"
    by blast
  then show ?case using Suc.IH by (simp add: Let_def)
qed

text \<open>A normal return of the search comes right after a page without items.\<close>

lemma search_pages_Inr_last:
  "search_pages k self e w location min_followers page users = Some (Inr rows, w') \<Longrightarrow>
   \<exists>p resp items.
      sent w' \<noteq> [] \<and> last (sent w') = search_request self location min_followers p
      \<and> respond e (length (sent w') - 1) (last (sent w')) = Some resp
      \<and> status_code resp = 200
      \<and> dict_get (json_body resp) ''items'' = Inr items \<and> \<not> truthy items"
proof (induction k arbitrary: w page users)
  case 0
  then show ?case by simp
next
  case (Suc k)
  let ?r = "search_request self location min_followers page"
  show ?case
  proof (cases "make_request k self e w (base_url self @ ustr ''/search/users'')
             (Some (search_params location min_followers page))")
    case None
    with Suc.prems show ?thesis by simp
  next
    case (Some a)
    obtain res w1 where a: "a = (res, w1)" by (cases a)
    show ?thesis
    proof (cases res)
      case (Inl err)
      with Some a Suc.prems show ?thesis by simp
    next
      case (Inr response)
      note mr = Some [unfolded a Inr]
      show ?thesis
      proof (cases "\<exists>us. dict_get response ''items'' = Inr (JList us) \<and> us \<noteq> []")
        case False
        from search_pages_no_list_eq [OF mr False, of users] Suc.prems
        obtain items where items: "dict_get response ''items'' = Inr items" "\<not> truthy items"
          and w': "w' = w1"
          by (auto simp del: search_pages.simps split: sum.splits if_splits)
        from make_request_sent [OF mr] obtain m where
          "sent w1 = sent w @ replicate (Suc m) ?r"
          unfolding search_request_def by blast
        then have s: "sent w1 \<noteq> []" "last (sent w1) = ?r"
          by (simp_all add: replicate_append_same)
        from make_request_Inr_last [OF mr] obtain resp where
          "respond e (length (sent w1) - 1) ?r = Some resp" "status_code resp = 200"
          "json_body resp = response"
          unfolding search_request_def by blast
        with items s w' show ?thesis by auto
      next
        case True
        then obtain us where us: "dict_get response ''items'' = Inr (JList us)" "us \<noteq> []"
          by blast
        from search_pages_list [OF mr us, of users] Suc.prems obtain users' w2 where
          "search_pages k self e w2 location min_followers (page + 1) users' = Some (Inr rows, w')"
          by (auto simp del: search_pages.simps split: option.splits sum.splits prod.splits)
        then show ?thesis by (rule Suc.IH)
      qed
    qed
  qed
qed

lemma enrich_length:
  "enrich k self e w items users = Some (Inr users', w') \<Longrightarrow>
   length users' = length users + length items"
proof (induction items arbitrary: w users)
  case Nil
  then show ?case by simp
next
  case (Cons item rest)
  from Cons.prems obtain w1 row where
    "enrich k self e w1 rest (users @ [row]) = Some (Inr users', w')"
    by (auto split: sum.splits json.splits option.splits prod.splits)
  from Cons.IH [OF this] show ?case by simp
qed

text \<open>
  Claim C7, as the code has it. The search starts at page 1. A non-empty page whose items
  are all enriched is followed by the request for the next page, with one more record per
  item; the search returns normally only right after a page request answered with no items
  (empty or absent). So it terminates, normally or with an exception, when some page \<open>P\<close>
  of the search is empty whenever it is served and, in addition, the upstream answers: no
  request is answered forever with a status that \<^verbatim>\<open>_make_request\<close> retries.
\<close>

theorem search_users_terminates_on_empty_page:
  assumes answered: "\<forall>n r. \<exists>m\<ge>n. \<not> retried (respond e m r)"
    and empty: "\<forall>n resp.
        respond e n (search_request self location min_followers P) = Some resp
          \<and> status_code resp = 200
        \<longrightarrow> (\<exists>items. dict_get (json_body resp) ''items'' = Inr items \<and> \<not> truthy items)"
    and P: "1 \<le> P"
  shows "(\<exists>k x. search_users k self e w location min_followers = Some x)
       \<and> (\<forall>k users w'.
            search_users k self e w location min_followers = Some (Inr users, w') \<longrightarrow>
            (\<exists>p resp items.
               sent w' \<noteq> [] \<and> last (sent w') = search_request self location min_followers p
               \<and> respond e (length (sent w') - 1) (last (sent w')) = Some resp
               \<and> status_code resp = 200
               \<and> dict_get (json_body resp) ''items'' = Inr items \<and> \<not> truthy items))
       \<and> (\<forall>k w0 page users response w1 us users' w2.
            make_request k self e w0 (base_url self @ ustr ''/search/users'')
              (Some (search_params location min_followers page)) = Some (Inr response, w1)
            \<and> dict_get response ''items'' = Inr (JList us) \<and> us \<noteq> []
            \<and> enrich k self e w1 us users = Some (Inr users', w2)
            \<longrightarrow> length users' = length users + length us
              \<and> search_pages (Suc k) self e w0 location min_followers page users =
                  search_pages k self e w2 location min_followers (page + 1) users')"
proof (intro conjI allI impI)
  show "\<exists>k x. search_users k self e w location min_followers = Some x"
    unfolding search_users_def
    using answered empty P by (rule search_pages_terminates) simp
next
  fix k users w'
  assume "search_users k self e w location min_followers = Some (Inr users, w')"
  then show "\<exists>p resp items.
               sent w' \<noteq> [] \<and> last (sent w') = search_request self location min_followers p
               \<and> respond e (length (sent w') - 1) (last (sent w')) = Some resp
               \<and> status_code resp = 200
               \<and> dict_get (json_body resp) ''items'' = Inr items \<and> \<not> truthy items"
    unfolding search_users_def by (rule search_pages_Inr_last)
next
  fix k w0 page users response w1 us users' w2
  assume a: "make_request k self e w0 (base_url self @ ustr ''/search/users'')
              (Some (search_params location min_followers page)) = Some (Inr response, w1)
            \<and> dict_get response ''items'' = Inr (JList us) \<and> us \<noteq> []
            \<and> enrich k self e w1 us users = Some (Inr users', w2)"
  then show "length users' = length users + length us"
    using enrich_length by blast
  from a show "search_pages (Suc k) self e w0 location min_followers page users =
                  search_pages k self e w2 location min_followers (page + 1) users'"
    by (simp add: search_pages_list del: search_pages.simps)
qed

theorem search_users_terminates_witness:
  "\<exists>k x. search_users k (init_scraper (ustr ''t'')) (search_env 237) world0 (ustr ''Bangalore'') 100 = Some x"
proof -
  have answered: "\<forall>n r. \<exists>m\<ge>n. \<not> retried (respond (search_env 237) m r)"
  proof (intro allI)
    fix n r
    have "\<not> retried (respond (search_env 237) n r)"
      by (simp add: retried_def search_env_def ok_response_def split: option.splits)
    then show "\<exists>m\<ge>n. \<not> retried (respond (search_env 237) m r)" by blast
  qed
  have empty: "\<forall>n resp.
        respond (search_env 237) n (search_request (init_scraper (ustr ''t'')) (ustr ''Bangalore'') 100 4)
          = Some resp \<and> status_code resp = 200
        \<longrightarrow> (\<exists>items. dict_get (json_body resp) ''items'' = Inr items \<and> \<not> truthy items)"
    by (auto simp: search_env_page ok_response_def search_pages_237)
  have P: "(1::int) \<le> 4" by simp
  from search_users_terminates_on_empty_page [OF answered empty P, of world0]
  show ?thesis by blast
qed

text \<open>
  Claim C7 as stated fails: that the search would serve an empty page is not enough. Here
  page 2 of the search is empty, but the profile of the one user of page 1 is refused with
  403 each time; the unbounded wait-and-retry of \<^verbatim>\<open>_make_request\<close> never returns, page 2
  is never asked for, and \<^verbatim>\<open>search_users\<close> does not terminate, whatever the fuel.
\<close>

theorem search_users_stuck_counterexample:
  "stuck_reply (search_request (init_scraper (ustr ''t'')) (ustr ''Bangalore'') 100 2) =
     Some (ok_response (JObj [(''total_count'', JInt 1), (''items'', JList [])]))
   \<and> search_users 1000 (init_scraper (ustr ''t'')) stuck_env world0 (ustr ''Bangalore'') 100 = None
   \<and> (\<forall>k. search_users k (init_scraper (ustr ''t'')) stuck_env world0 (ustr ''Bangalore'') 100 = None)"
proof -
  let ?self = "init_scraper (ustr ''t'')"
  have page2: "stuck_reply (search_request ?self (ustr ''Bangalore'') 100 2) =
     Some (ok_response (JObj [(''total_count'', JInt 1), (''items'', JList [])]))"
    by (simp add: stuck_reply_def search_request_def request_of_def page_of_def
        search_params_def search_page_def)
  have page1: "respond stuck_env n (request_of ?self (base_url ?self @ ustr ''/search/users'')
                 (Some (search_params (ustr ''Bangalore'') 100 1))) =
     Some (ok_response (JObj [(''total_count'', JInt 1), (''items'', JList [search_item 0])]))"
    for n
    by (simp add: stuck_env_def stuck_reply_def request_of_def page_of_def
        search_params_def search_page_def)
  have rt: "reset_time forbidden_response = Inr 105"
    by code_simp
  have refused: "\<forall>n. \<exists>resp t. respond stuck_env n (request_of ?self (user_url 0) None) = Some resp
             \<and> status_code resp = 403 \<and> reset_time resp = Inr t"
    using rt by (simp add: stuck_env_def stuck_reply_def request_of_def forbidden_response_def)
  have never: "search_users k ?self stuck_env world0 (ustr ''Bangalore'') 100 = None" for k
  proof (cases k)
    case 0
    then show ?thesis by (simp add: search_users_def)
  next
    case (Suc j)
    show ?thesis
    proof (cases j)
      case 0
      with Suc show ?thesis by (simp add: search_users_def)
    next
      case (Suc i)
      let ?w1 = "world0\<lparr> sent := sent world0 @ [request_of ?self (base_url ?self @ ustr ''/search/users'')
                 (Some (search_params (ustr ''Bangalore'') 100 1))] \<rparr>"
      have mr: "make_request j ?self stuck_env world0 (base_url ?self @ ustr ''/search/users'')
                  (Some (search_params (ustr ''Bangalore'') 100 1)) =
                Some (Inr (JObj [(''total_count'', JInt 1), (''items'', JList [search_item 0])]),
                      ?w1)"
        unfolding Suc
        using make_request_ok [where w = world0 and k = i, OF page1 [of "length (sent world0)"]]
        by (simp add: ok_response_def)
      have "make_request j ?self stuck_env ?w1 (user_url 0) None = None"
        using refused by (rule make_request_refused_forever)
      then have "enrich j ?self stuck_env ?w1 [search_item 0] [] = None"
        by (simp add: search_item_def)
      with mr show ?thesis
        unfolding \<open>k = Suc j\<close> search_users_def by simp
    qed
  qed
  from page2 never show ?thesis by blast
qed

section \<open>Collecting the repositories of all users: the concatenation\<close>

text \<open>
  Claim C8: the loop of lines 167 to 170 that extends \<^verbatim>\<open>all_repos\<close> user by user yields
  what was collected before followed by the concatenation of the per-user sequences, taken
  in the order of the users and each in its own order; it fails or runs on exactly when
  fetching the per-user sequences does, and ends in the same world.
\<close>

theorem collect_repos_concat:
  "collect_repos k self e w users all_repos =
     (case per_user_repos k self e w users of
        None \<Rightarrow> None
      | Some (Inl err, w') \<Rightarrow> Some (Inl err, w')
      | Some (Inr rss, w') \<Rightarrow> Some (Inr (all_repos @ concat rss), w'))"
proof (induction users arbitrary: w all_repos)
  case Nil
  show ?case by simp
next
  case (Cons user rest)
  show ?case
  proof (cases "map_of user ''login''")
    case None
    then show ?thesis by simp
  next
    case (Some login)
    show ?thesis
    proof (cases "get_user_repositories k self e w login 500")
      case None
      with Some show ?thesis by simp
    next
      case got: (Some a)
      obtain res w1 where a: "a = (res, w1)" by (cases a)
      show ?thesis
      proof (cases res)
        case (Inl err)
        with Some got a show ?thesis by simp
      next
        case (Inr repos)
        with Some got a Cons.IH [of w1 "all_repos @ repos"] show ?thesis
          by (simp split: option.splits sum.splits prod.splits)
      qed
    qed
  qed
qed

theorem collect_repos_concat_witness:
  "(case collect_repos 2 (init_scraper (ustr ''t'')) two_repos_env world0
           [[(''login'', JStr (ustr ''octocat''))], [(''login'', JStr (ustr ''mojombo''))]] [] of
      Some (Inr all_repos, w') \<Rightarrow>
        map (\<lambda>r. map_of r ''login'') all_repos =
          [Some (JStr (ustr ''octocat'')), Some (JStr (ustr ''octocat'')),
           Some (JStr (ustr ''mojombo'')), Some (JStr (ustr ''mojombo''))]
    | _ \<Rightarrow> False)"
proof -
  have "(case per_user_repos 2 (init_scraper (ustr ''t'')) two_repos_env world0
           [[(''login'', JStr (ustr ''octocat''))], [(''login'', JStr (ustr ''mojombo''))]] of
      Some (Inr rss, w') \<Rightarrow>
        map (map (\<lambda>r. map_of r ''login'')) rss =
          [[Some (JStr (ustr ''octocat'')), Some (JStr (ustr ''octocat''))],
           [Some (JStr (ustr ''mojombo'')), Some (JStr (ustr ''mojombo''))]]
    | _ \<Rightarrow> False)"
    by (simp add: get_user_repositories_def numeral_2_eq_2 two_repos_env_def ok_response_def
        world0_def sample_repo_def clean_repo_def repos_url_def repo_params_def
        init_scraper_def slice_to_def request_of_def)
  then show ?thesis
    using collect_repos_concat [of 2 "init_scraper (ustr ''t'')" two_repos_env world0
        "[[(''login'', JStr (ustr ''octocat''))], [(''login'', JStr (ustr ''mojombo''))]]" "[]"]
    by (auto simp: map_concat split: option.splits sum.splits prod.splits)
qed

end
